theory Spec2Isabelle
  imports Main "HOL-Library.Multiset"
begin

section \<open>Memory, the allocator and the shared counter\<close>

text \<open>
  \<^verbatim>\<open>quicksort.c\<close> works on heap buffers of \<^verbatim>\<open>int\<close>: \<^verbatim>\<open>malloc\<close> creates them,
  \<^verbatim>\<open>memcpy\<close> and indexed assignments fill them, \<^verbatim>\<open>free\<close> releases them. The model keeps
  an explicit store. A pointer is \<open>None\<close> for \<^verbatim>\<open>NULL\<close> or \<open>Some a\<close> for the base of buffer
  number \<open>a\<close>. The store is the list of all buffers handed out so far: entry \<open>a\<close> is
  \<open>Some xs\<close> while buffer \<open>a\<close> is allocated and holds \<open>xs\<close>, and \<open>None\<close> once it has
  been freed. Addresses are never reused.

  The elements are C \<^verbatim>\<open>int\<close>s. The code only copies and compares them, so they are
  modelled as \<open>int\<close>; sizes and counts (\<^verbatim>\<open>size_t\<close>) are \<open>nat\<close>: a count never exceeds
  the number of elements of a buffer that exists, and \<^verbatim>\<open>size * sizeof(int)\<close> is the size of
  such a buffer, so neither wraps around. The global \<^verbatim>\<open>thread_count\<close> is an \<^verbatim>\<open>int\<close> that is
  only incremented, once per thread; it is modelled as \<open>int\<close>.

  Whether a call of \<^verbatim>\<open>malloc\<close> succeeds is up to the environment: the allocator says,
  for the k-th call, whether it succeeds, and what the fresh buffer holds
  (\<^verbatim>\<open>malloc\<close> does not initialise memory).

  Everything C leaves undefined (reading or writing through \<^verbatim>\<open>NULL\<close>, outside a
  buffer or into a freed buffer, freeing a buffer twice) is the outcome \<open>Fault\<close>.
\<close>

type_synonym ptr = "nat option"

record allocator =
  succeeds :: "nat \<Rightarrow> bool"
  garbage :: "nat \<Rightarrow> nat \<Rightarrow> int"

record state =
  blocks :: "int list option list"
  mallocs :: nat
  thread_count :: int

datatype 'a outcome = Fault | Done 'a

definition blk :: "state \<Rightarrow> nat \<Rightarrow> int list option" where
  "blk s a = (if a < length (blocks s) then blocks s ! a else None)"

text \<open>\<^verbatim>\<open>malloc(n * sizeof(int))\<close>: the new buffer gets the next address.\<close>

definition malloc :: "allocator \<Rightarrow> state \<Rightarrow> nat \<Rightarrow> state \<times> ptr" where
  "malloc al s n =
     (if succeeds al (mallocs s)
      then (s\<lparr>blocks := blocks s @ [Some (map (garbage al (mallocs s)) [0..<n])],
              mallocs := Suc (mallocs s)\<rparr>,
            Some (length (blocks s)))
      else (s\<lparr>mallocs := Suc (mallocs s)\<rparr>, None))"

text \<open>\<^verbatim>\<open>free(p)\<close>: nothing happens for \<^verbatim>\<open>NULL\<close>; freeing what is not allocated is undefined.\<close>

definition free :: "state \<Rightarrow> ptr \<Rightarrow> state outcome" where
  "free s p =
     (case p of
        None \<Rightarrow> Done s
      | Some a \<Rightarrow>
          (case blk s a of
             None \<Rightarrow> Fault
           | Some xs \<Rightarrow> Done (s\<lparr>blocks := (blocks s)[a := None]\<rparr>)))"

primrec free_all :: "state \<Rightarrow> ptr list \<Rightarrow> state outcome" where
  "free_all s [] = Done s"
| "free_all s (p # ps) = (case free s p of Fault \<Rightarrow> Fault | Done s' \<Rightarrow> free_all s' ps)"

text \<open>\<^verbatim>\<open>p[i]\<close> as a value and \<^verbatim>\<open>p[i] = v\<close>.\<close>

definition load :: "state \<Rightarrow> ptr \<Rightarrow> nat \<Rightarrow> int option" where
  "load s p i =
     (case p of
        None \<Rightarrow> None
      | Some a \<Rightarrow>
          (case blk s a of
             None \<Rightarrow> None
           | Some xs \<Rightarrow> if i < length xs then Some (xs ! i) else None))"

definition store :: "state \<Rightarrow> ptr \<Rightarrow> nat \<Rightarrow> int \<Rightarrow> state outcome" where
  "store s p i v =
     (case p of
        None \<Rightarrow> Fault
      | Some a \<Rightarrow>
          (case blk s a of
             None \<Rightarrow> Fault
           | Some xs \<Rightarrow>
               if i < length xs then Done (s\<lparr>blocks := (blocks s)[a := Some (xs[i := v])]\<rparr>)
               else Fault))"

text \<open>
  \<^verbatim>\<open>memcpy(dst + off, src, n * sizeof(int))\<close>. Copying nothing is taken to do nothing,
  whatever the pointers are: the sorters pass \<^verbatim>\<open>NULL\<close> with length 0 for an empty
  partition. Otherwise both ranges must lie inside allocated buffers and must not overlap.
\<close>

definition memcpy :: "state \<Rightarrow> ptr \<Rightarrow> nat \<Rightarrow> ptr \<Rightarrow> nat \<Rightarrow> state outcome" where
  "memcpy s dst off src n =
     (if n = 0 then Done s
      else
        (case dst of
           None \<Rightarrow> Fault
         | Some d \<Rightarrow>
             (case src of
                None \<Rightarrow> Fault
              | Some a \<Rightarrow>
                  (case blk s d of
                     None \<Rightarrow> Fault
                   | Some ys \<Rightarrow>
                       (case blk s a of
                          None \<Rightarrow> Fault
                        | Some xs \<Rightarrow>
                            if n \<le> length xs \<and> off + n \<le> length ys \<and> (d \<noteq> a \<or> n \<le> off)
                            then Done (s\<lparr>blocks := (blocks s)
                                          [d := Some (take off ys @ take n xs @ drop (off + n) ys)]\<rparr>)
                            else Fault)))))"

section \<open>partition\<close>

text \<open>
  The loop of \<^verbatim>\<open>partition\<close> (lines 62 to 66), from index \<open>i\<close> on, with the three
  counters.
\<close>

function partition_loop ::
  "state \<Rightarrow> ptr \<Rightarrow> nat \<Rightarrow> int \<Rightarrow> ptr \<Rightarrow> ptr \<Rightarrow> ptr \<Rightarrow> nat \<Rightarrow> nat \<Rightarrow> nat \<Rightarrow> nat \<Rightarrow>
   (state \<times> nat \<times> nat \<times> nat) outcome" where
  "partition_loop s arr sz pivot less_arr more_arr equal_arr less_count more_count equal_count i =
     (if i < sz then
        (case load s arr i of
           None \<Rightarrow> Fault
         | Some v \<Rightarrow>
             if v < pivot then
               (case store s less_arr less_count v of
                  Fault \<Rightarrow> Fault
                | Done s' \<Rightarrow>
                    partition_loop s' arr sz pivot less_arr more_arr equal_arr
                      (Suc less_count) more_count equal_count (Suc i))
             else if v > pivot then
               (case store s more_arr more_count v of
                  Fault \<Rightarrow> Fault
                | Done s' \<Rightarrow>
                    partition_loop s' arr sz pivot less_arr more_arr equal_arr
                      less_count (Suc more_count) equal_count (Suc i))
             else
               (case store s equal_arr equal_count v of
                  Fault \<Rightarrow> Fault
                | Done s' \<Rightarrow>
                    partition_loop s' arr sz pivot less_arr more_arr equal_arr
                      less_count more_count (Suc equal_count) (Suc i)))
      else Done (s, less_count, more_count, equal_count))"
  by pat_completeness auto
termination
  by (relation "measure (\<lambda>(s, arr, sz, pivot, la, ma, ea, lc, mc, ec, i). sz - i)") auto

declare partition_loop.simps [simp del]

text \<open>
  \<^verbatim>\<open>partition\<close>. The result \<open>None\<close> is the return value \<^verbatim>\<open>-1\<close> (the out parameters are
  not written); \<open>Some (less, less_size, equal, equal_size, more, more_size)\<close> is the
  return value \<^verbatim>\<open>0\<close> with the six out parameters.
\<close>

definition partition_c ::
  "allocator \<Rightarrow> state \<Rightarrow> ptr \<Rightarrow> nat \<Rightarrow> int \<Rightarrow>
   (state \<times> (ptr \<times> nat \<times> ptr \<times> nat \<times> ptr \<times> nat) option) outcome" where
  "partition_c al s arr sz pivot =
     (let (s1, less_arr) = malloc al s sz;
          (s2, more_arr) = malloc al s1 sz;
          (s3, equal_arr) = malloc al s2 sz
      in if less_arr = None \<or> more_arr = None \<or> equal_arr = None then Done (s3, None)
         else
           (case partition_loop s3 arr sz pivot less_arr more_arr equal_arr 0 0 0 0 of
              Fault \<Rightarrow> Fault
            | Done (s4, less_count, more_count, equal_count) \<Rightarrow>
                Done (s4, Some (less_arr, less_count, equal_arr, equal_count,
                                more_arr, more_count))))"

section \<open>merge\<close>

definition merge ::
  "state \<Rightarrow> ptr \<Rightarrow> ptr \<Rightarrow> nat \<Rightarrow> ptr \<Rightarrow> nat \<Rightarrow> ptr \<Rightarrow> nat \<Rightarrow> state outcome" where
  "merge s result less_arr less_size equal_arr equal_size more_arr more_size =
     (case memcpy s result 0 less_arr less_size of
        Fault \<Rightarrow> Fault
      | Done s1 \<Rightarrow>
          (case memcpy s1 result less_size equal_arr equal_size of
             Fault \<Rightarrow> Fault
           | Done s2 \<Rightarrow> memcpy s2 result (less_size + equal_size) more_arr more_size))"

section \<open>The sequential sorter\<close>

text \<open>
  \<^verbatim>\<open>quicksort\<close> returns a pointer: \<^verbatim>\<open>NULL\<close> for size 0 and when \<^verbatim>\<open>partition\<close> fails, else the
  buffer it allocated for the result. The result of \<^verbatim>\<open>malloc\<close> for that buffer is not
  checked, nor is a \<^verbatim>\<open>NULL\<close> from a recursive call: \<^verbatim>\<open>merge\<close> then copies through
  \<^verbatim>\<open>NULL\<close>, which is a fault. The recursion is on the sizes of the partitions; that they
  are smaller than \<open>sz\<close> is proved below, before the termination proof.
\<close>

function quicksort :: "allocator \<Rightarrow> state \<Rightarrow> nat \<Rightarrow> ptr \<Rightarrow> (state \<times> ptr) outcome" where
  "quicksort al s sz data =
     (if sz = 0 then Done (s, None)
      else
        (case load s data 0 of
           None \<Rightarrow> Fault
         | Some pivot \<Rightarrow>
             (case partition_c al s data sz pivot of
                Fault \<Rightarrow> Fault
              | Done (s1, None) \<Rightarrow> Done (s1, None)
              | Done (s1, Some (less_arr, less_size, equal_arr, equal_size, more_arr, more_size)) \<Rightarrow>
                  (case quicksort al s1 less_size less_arr of
                     Fault \<Rightarrow> Fault
                   | Done (s2, sorted_less) \<Rightarrow>
                       (case quicksort al s2 more_size more_arr of
                          Fault \<Rightarrow> Fault
                        | Done (s3, sorted_more) \<Rightarrow>
                            (let (s4, result) = malloc al s3 sz in
                               (case merge s4 result sorted_less less_size equal_arr equal_size
                                       sorted_more more_size of
                                  Fault \<Rightarrow> Fault
                                | Done s5 \<Rightarrow>
                                    (case free_all s5 [less_arr, more_arr, equal_arr,
                                                       sorted_less, sorted_more] of
                                       Fault \<Rightarrow> Fault
                                     | Done s6 \<Rightarrow> Done (s6, result)))))))))"
  by pat_completeness auto

section \<open>The threaded sorter\<close>

text \<open>
  \<^verbatim>\<open>quicksort_threaded\<close> is the start routine of a thread; its argument is a
  \<^verbatim>\<open>ThreadArgs\<close>. Each call first increments the global \<^verbatim>\<open>thread_count\<close> while holding
  \<^verbatim>\<open>thread_count_mutex\<close>, which the model takes as one atomic step.

  A parent calls \<^verbatim>\<open>pthread_create\<close> for \<^verbatim>\<open>less\<close> and for \<^verbatim>\<open>more\<close> and ignores what the
  calls return (lines 189 and 190), then joins both threads. What the threads do is up
  to the environment, as it is for \<^verbatim>\<open>malloc\<close>. The scheduler says, for the parent that
  forks when \<^verbatim>\<open>thread_count\<close> has the value \<open>t\<close>:
  \<^item> whether the thread for \<^verbatim>\<open>less\<close> and the thread for \<^verbatim>\<open>more\<close> can be created. When a
    thread cannot be created, its \<^verbatim>\<open>pthread_t\<close> is never set, and \<^verbatim>\<open>pthread_join\<close> on it
    is undefined: the outcome is \<open>Fault\<close>;
  \<^item> which of the two children runs first. The children work on buffers of their own and
    share only the allocator and the counter, each of which is used in atomic steps
    (\<^verbatim>\<open>malloc\<close> is thread-safe, the counter is incremented under the mutex). The model runs
    one child to its end and then the other, in the order the scheduler gives; steps of
    the two children are not interleaved more finely than that.
  \<^verbatim>\<open>pthread_exit(NULL)\<close> ends the thread with the result \<^verbatim>\<open>NULL\<close>, which is what the
  joining parent receives. A child that faults takes the whole program with it.
\<close>

record ThreadArgs =
  args_data :: ptr
  args_size :: nat

record scheduler =
  creates_less :: "int \<Rightarrow> bool"
  creates_more :: "int \<Rightarrow> bool"
  less_first :: "int \<Rightarrow> bool"

text \<open>
  What a parent does once both children are joined (lines 197 to 205): allocate the
  result, merge, release the five buffers, return the result.
\<close>

definition after_join ::
  "allocator \<Rightarrow> state \<Rightarrow> nat \<Rightarrow> ptr \<Rightarrow> nat \<Rightarrow> ptr \<Rightarrow> nat \<Rightarrow> ptr \<Rightarrow> nat \<Rightarrow> ptr \<Rightarrow> ptr \<Rightarrow>
   (state \<times> ptr) outcome" where
  "after_join al s3 sz less_arr less_size equal_arr equal_size more_arr more_size
     sorted_less sorted_more =
     (let (s4, result) = malloc al s3 sz in
        (case merge s4 result sorted_less less_size equal_arr equal_size
                sorted_more more_size of
           Fault \<Rightarrow> Fault
         | Done s5 \<Rightarrow>
             (case free_all s5 [less_arr, more_arr, equal_arr, sorted_less, sorted_more] of
                Fault \<Rightarrow> Fault
              | Done s6 \<Rightarrow> Done (s6, result))))"

function quicksort_threaded ::
  "allocator \<Rightarrow> scheduler \<Rightarrow> state \<Rightarrow> ThreadArgs \<Rightarrow> (state \<times> ptr) outcome" where
  "quicksort_threaded al sch s0 args =
     (let s = s0\<lparr>thread_count := thread_count s0 + 1\<rparr>;
          sz = args_size args;
          data = args_data args
      in if sz = 0 then Done (s, None)
         else
           (case load s data 0 of
              None \<Rightarrow> Fault
            | Some pivot \<Rightarrow>
                (case partition_c al s data sz pivot of
                   Fault \<Rightarrow> Fault
                 | Done (s1, None) \<Rightarrow> Done (s1, None)
                 | Done (s1, Some (less_arr, less_size, equal_arr, equal_size, more_arr, more_size)) \<Rightarrow>
                     (let less_args = \<lparr>args_data = less_arr, args_size = less_size\<rparr>;
                          more_args = \<lparr>args_data = more_arr, args_size = more_size\<rparr>
                      in if \<not> creates_less sch (thread_count s1) \<or>
                            \<not> creates_more sch (thread_count s1) then Fault
                         else if less_first sch (thread_count s1) then
                           (case quicksort_threaded al sch s1 less_args of
                              Fault \<Rightarrow> Fault
                            | Done (s2, sorted_less) \<Rightarrow>
                                (case quicksort_threaded al sch s2 more_args of
                                   Fault \<Rightarrow> Fault
                                 | Done (s3, sorted_more) \<Rightarrow>
                                     after_join al s3 sz less_arr less_size equal_arr equal_size
                                       more_arr more_size sorted_less sorted_more))
                         else
                           (case quicksort_threaded al sch s1 more_args of
                              Fault \<Rightarrow> Fault
                            | Done (s2, sorted_more) \<Rightarrow>
                                (case quicksort_threaded al sch s2 less_args of
                                   Fault \<Rightarrow> Fault
                                 | Done (s3, sorted_less) \<Rightarrow>
                                     after_join al s3 sz less_arr less_size equal_arr equal_size
                                       more_arr more_size sorted_less sorted_more))))))"
  by pat_completeness auto

section \<open>Observations and concrete environments\<close>

text \<open>
  The sequence of \<open>n\<close> elements that a caller reads through the pointer \<open>p\<close>, as
  \<^verbatim>\<open>main\<close> does when it prints \<^verbatim>\<open>sorted[i]\<close> for \<open>i < size\<close>: no element is read when
  \<open>n = 0\<close>, so the pointer may then be \<^verbatim>\<open>NULL\<close>.
\<close>

definition contents :: "state \<Rightarrow> ptr \<Rightarrow> nat \<Rightarrow> int list option" where
  "contents s p n =
     (if n = 0 then Some []
      else
        (case p of
           None \<Rightarrow> None
         | Some a \<Rightarrow>
             (case blk s a of
                None \<Rightarrow> None
              | Some xs \<Rightarrow> if n \<le> length xs then Some (take n xs) else None)))"

text \<open>An allocator that never fails, and one whose j-th call (counted from 0) fails.\<close>

definition always :: allocator where
  "always = \<lparr>succeeds = (\<lambda>k. True), garbage = (\<lambda>k i. 0)\<rparr>"

definition failing_at :: "nat \<Rightarrow> allocator" where
  "failing_at j = \<lparr>succeeds = (\<lambda>k. k \<noteq> j), garbage = (\<lambda>k i. 0)\<rparr>"

text \<open>
  Schedulers under which every thread is created: one runs the child for \<^verbatim>\<open>less\<close> first
  at every fork, the other the child for \<^verbatim>\<open>more\<close>. And a scheduler under which no thread
  can be created by a parent that forks once \<open>n\<close> threads have been started.
\<close>

definition in_order :: scheduler where
  "in_order = \<lparr>creates_less = (\<lambda>t. True), creates_more = (\<lambda>t. True), less_first = (\<lambda>t. True)\<rparr>"

definition more_before_less :: scheduler where
  "more_before_less =
     \<lparr>creates_less = (\<lambda>t. True), creates_more = (\<lambda>t. True), less_first = (\<lambda>t. False)\<rparr>"


text \<open>The state in which \<^verbatim>\<open>main\<close> calls a sorter: the input buffer is the only buffer.\<close>

definition start :: "int list \<Rightarrow> state" where
  "start xs = \<lparr>blocks = [Some xs], mallocs = 0, thread_count = 0\<rparr>"


text \<open>A state for trying \<^verbatim>\<open>merge\<close>: three source buffers and a destination of length 5.\<close>

definition merge_example :: state where
  "merge_example = \<lparr>blocks = [Some [1, 3, 3], Some [5, 0, 0], Some [8], Some [0, 0, 0, 0, 0]],
                     mallocs = 4, thread_count = 0\<rparr>"

text \<open>
  A predicate for the proofs about the loop of \<^verbatim>\<open>partition\<close>: in state \<open>s'\<close> buffer \<open>a\<close> has
  the length of \<open>L\<close>, and it starts with the first \<open>k\<close> elements of \<open>L\<close> followed by
  \<open>F\<close>.
\<close>

definition filled :: "state \<Rightarrow> nat \<Rightarrow> int list \<Rightarrow> nat \<Rightarrow> int list \<Rightarrow> bool" where
  "filled s' a L k F =
     (\<exists>L'. blk s' a = Some L' \<and> length L' = length L \<and> take (k + length F) L' = take k L @ F)"

text \<open>
  A predicate for the proofs about the sorters: from \<open>s\<close> to \<open>s'\<close> no buffer of \<open>s\<close> has
  changed, and the pointer \<open>r\<close>, unless it is \<^verbatim>\<open>NULL\<close>, is a buffer that \<open>s\<close> did not have.
\<close>

definition grown :: "state \<Rightarrow> state \<Rightarrow> ptr \<Rightarrow> bool" where
  "grown s s' r =
     (length (blocks s) \<le> length (blocks s') \<and>
      (\<forall>b < length (blocks s). blk s' b = blk s b) \<and>
      (\<forall>b. r = Some b \<longrightarrow> length (blocks s) \<le> b \<and> b < length (blocks s')))"

text \<open>
  The \<open>n\<close> calls of \<^verbatim>\<open>malloc\<close> from call number \<open>m\<close> on all succeed.
\<close>

definition run_ok :: "allocator \<Rightarrow> nat \<Rightarrow> nat \<Rightarrow> bool" where
  "run_ok al m n = (\<forall>k. m \<le> k \<and> k < m + n \<longrightarrow> succeeds al k)"

section \<open>Termination of the sorters\<close>

text \<open>
  Facts about \<open>partition_c\<close> that the recursion of the sorters rests on: the three
  counters add up to the number of elements visited, and the element at index 0, when it
  is the pivot, lands in the equal partition. So both partitions handed to the recursive
  calls are strictly smaller than the input, and the size is a measure for both sorters.
\<close>

lemma partition_loop_counts:
  "partition_loop s arr sz pivot la ma ea lc mc ec i = Done (s', lc', mc', ec') \<Longrightarrow> i \<le> sz \<Longrightarrow>
     lc' + mc' + ec' = lc + mc + ec + (sz - i) \<and> ec \<le> ec'"
proof (induction s arr sz pivot la ma ea lc mc ec i rule: partition_loop.induct)
  case (1 s arr sz pivot la ma ea lc mc ec i)
  show ?case
  proof (cases "i < sz")
    case False
    with "1.prems" show ?thesis by (simp add: partition_loop.simps)
  next
    case True
    then obtain v where v: "load s arr i = Some v"
      using "1.prems"(1) by (cases "load s arr i") (simp_all add: partition_loop.simps)
    show ?thesis
    proof (cases "v < pivot")
      case lt: True
      then obtain s1 where s1: "store s la lc v = Done s1"
        using "1.prems"(1) True v by (cases "store s la lc v") (simp_all add: partition_loop.simps)
      have "partition_loop s1 arr sz pivot la ma ea (Suc lc) mc ec (Suc i) = Done (s', lc', mc', ec')"
        using "1.prems"(1) True v lt s1 by (simp add: partition_loop.simps)
      from "1.IH"(1) [OF True v lt s1 this] True show ?thesis by simp
    next
      case nlt: False
      show ?thesis
      proof (cases "v > pivot")
        case gt: True
        then obtain s1 where s1: "store s ma mc v = Done s1"
          using "1.prems"(1) True v nlt by (cases "store s ma mc v") (simp_all add: partition_loop.simps)
        have "partition_loop s1 arr sz pivot la ma ea lc (Suc mc) ec (Suc i) = Done (s', lc', mc', ec')"
          using "1.prems"(1) True v nlt gt s1 by (simp add: partition_loop.simps)
        from "1.IH"(2) [OF True v nlt gt s1 this] True show ?thesis by simp
      next
        case ngt: False
        then obtain s1 where s1: "store s ea ec v = Done s1"
          using "1.prems"(1) True v nlt by (cases "store s ea ec v") (simp_all add: partition_loop.simps)
        have "partition_loop s1 arr sz pivot la ma ea lc mc (Suc ec) (Suc i) = Done (s', lc', mc', ec')"
          using "1.prems"(1) True v nlt ngt s1 by (simp add: partition_loop.simps)
        from "1.IH"(3) [OF True v nlt ngt s1 this] True show ?thesis by simp
      qed
    qed
  qed
qed

lemma load_malloc:
  "load s p i = Some v \<Longrightarrow> load (fst (malloc al s n)) p i = Some v"
  by (auto simp: load_def malloc_def blk_def nth_append split: option.splits if_splits)

lemma partition_c_sizes:
  assumes "partition_c al s arr sz pivot = Done (s', Some (la, ls, ea, es, ma, ms))"
    and "0 < sz" and "load s arr 0 = Some pivot"
  shows "ls + es + ms = sz \<and> 0 < es"
proof -
  obtain s1 p1 where m1: "malloc al s sz = (s1, p1)" by (cases "malloc al s sz")
  obtain s2 p2 where m2: "malloc al s1 sz = (s2, p2)" by (cases "malloc al s1 sz")
  obtain s3 p3 where m3: "malloc al s2 sz = (s3, p3)" by (cases "malloc al s2 sz")
  have ld: "load s3 arr 0 = Some pivot"
    using load_malloc [of s2 arr 0 pivot al sz] load_malloc [of s1 arr 0 pivot al sz]
      load_malloc [of s arr 0 pivot al sz] assms(3) m1 m2 m3 by simp
  from assms(1) m1 m2 m3 obtain s4 where
    lp: "partition_loop s3 arr sz pivot p1 p2 p3 0 0 0 0 = Done (s4, ls, ms, es)"
    by (auto simp: partition_c_def split: if_splits outcome.splits)
  from lp ld assms(2) obtain s5 where
    "partition_loop s5 arr sz pivot p1 p2 p3 0 0 (Suc 0) (Suc 0) = Done (s4, ls, ms, es)"
    by (subst (asm) partition_loop.simps) (auto split: outcome.splits)
  from partition_loop_counts [OF this] assms(2) show ?thesis by auto
qed

termination quicksort
  apply (relation "measure (\<lambda>(al, s, sz, data). sz)")
    apply simp
   apply (auto dest: partition_c_sizes)
  done

declare quicksort.simps [simp del]

termination quicksort_threaded
  apply (relation "measure (\<lambda>(al, sch, s, args). args_size args)")
    apply simp
   apply (auto dest: partition_c_sizes)
  done

declare quicksort_threaded.simps [simp del]

section \<open>Facts about the memory operations\<close>

text \<open>
  What each operation does to the buffers (\<open>blk\<close>), to the number of buffers and to the
  counters, when it returns; and when it is sure to return.
\<close>

lemma malloc_facts:
  assumes "malloc al s n = (s', p)"
  shows "blk s' b = (if p = Some b then Some (map (garbage al (mallocs s)) [0..<n]) else blk s b)"
    and "length (blocks s') = (if p = None then length (blocks s) else Suc (length (blocks s)))"
    and "p = Some b \<Longrightarrow> b = length (blocks s)"
    and "thread_count s' = thread_count s"
    and "mallocs s' = Suc (mallocs s)"
    and "(p \<noteq> None) = succeeds al (mallocs s)"
  using assms by (auto simp: malloc_def blk_def nth_append split: if_splits)

lemma blk_live: "blk s a = Some xs \<Longrightarrow> a < length (blocks s)"
  by (simp add: blk_def split: if_splits)

lemma blk_update:
  "blk (s\<lparr>blocks := (blocks s)[a := x]\<rparr>) b =
     (if b = a \<and> a < length (blocks s) then x else blk s b)"
  by (simp add: blk_def)

lemma store_Done:
  assumes "store s p i v = Done s'"
  obtains a xs where "p = Some a" and "blk s a = Some xs" and "i < length xs"
    and "s' = s\<lparr>blocks := (blocks s)[a := Some (xs[i := v])]\<rparr>"
  using assms by (simp add: store_def split: option.splits if_splits)

lemma store_facts:
  assumes "store s p i v = Done s'"
  shows "Some b \<noteq> p \<Longrightarrow> blk s' b = blk s b"
    and "length (blocks s') = length (blocks s)"
    and "thread_count s' = thread_count s"
    and "mallocs s' = mallocs s"
proof -
  from assms obtain a xs where *: "p = Some a" "blk s a = Some xs"
    "s' = s\<lparr>blocks := (blocks s)[a := Some (xs[i := v])]\<rparr>"
    by (rule store_Done)
  show "Some b \<noteq> p \<Longrightarrow> blk s' b = blk s b" using * by (simp add: blk_update)
  show "length (blocks s') = length (blocks s)" using * by simp
  show "thread_count s' = thread_count s" using * by simp
  show "mallocs s' = mallocs s" using * by simp
qed

lemma store_ok:
  assumes "blk s a = Some xs" and "i < length xs"
  shows "store s (Some a) i v = Done (s\<lparr>blocks := (blocks s)[a := Some (xs[i := v])]\<rparr>)"
  using assms by (simp add: store_def)

lemma free_facts:
  assumes "free s p = Done s'"
  shows "blk s' b = (if p = Some b then None else blk s b)"
    and "length (blocks s') = length (blocks s)"
    and "thread_count s' = thread_count s"
    and "mallocs s' = mallocs s"
  using assms by (auto simp: free_def blk_def split: option.splits if_splits)

lemma free_ok:
  assumes "p = None \<or> (\<exists>a xs. p = Some a \<and> blk s a = Some xs)"
  shows "\<exists>s'. free s p = Done s'"
  using assms by (auto simp: free_def)

lemma free_all_facts:
  "free_all s ps = Done s' \<Longrightarrow>
     (\<forall>b. blk s' b = (if Some b \<in> set ps then None else blk s b)) \<and>
     length (blocks s') = length (blocks s) \<and> thread_count s' = thread_count s \<and>
     mallocs s' = mallocs s"
proof (induction ps arbitrary: s)
  case Nil
  then show ?case by simp
next
  case (Cons p ps)
  from Cons.prems obtain s1 where f: "free s p = Done s1" and r: "free_all s1 ps = Done s'"
    by (auto split: outcome.splits)
  from Cons.IH [OF r] free_facts [OF f] show ?case by auto
qed

lemma free_all_ok:
  "\<forall>p \<in> set ps. p = None \<or> (\<exists>a xs. p = Some a \<and> blk s a = Some xs) \<Longrightarrow>
   distinct (filter (\<lambda>p. p \<noteq> None) ps) \<Longrightarrow> \<exists>s'. free_all s ps = Done s'"
proof (induction ps arbitrary: s)
  case Nil
  then show ?case by simp
next
  case (Cons p ps)
  from Cons.prems(1) obtain s1 where f: "free s p = Done s1"
    using free_ok [of p s] by auto
  have "\<forall>q \<in> set ps. q = None \<or> (\<exists>a xs. q = Some a \<and> blk s1 a = Some xs)"
  proof
    fix q assume q: "q \<in> set ps"
    show "q = None \<or> (\<exists>a xs. q = Some a \<and> blk s1 a = Some xs)"
    proof (cases q)
      case None
      then show ?thesis by simp
    next
      case (Some a)
      with q Cons.prems(2) have "p \<noteq> Some a" by (cases p) auto
      moreover from Cons.prems(1) q Some obtain xs where "blk s a = Some xs" by auto
      ultimately show ?thesis using free_facts(1) [OF f, of a] Some by simp
    qed
  qed
  moreover from Cons.prems(2) have "distinct (filter (\<lambda>p. p \<noteq> None) ps)"
    by (simp split: if_splits)
  ultimately obtain s' where "free_all s1 ps = Done s'" using Cons.IH by blast
  with f show ?case by simp
qed

lemma memcpy_facts:
  assumes "memcpy s dst off src n = Done s'"
  shows "Some b \<noteq> dst \<Longrightarrow> blk s' b = blk s b"
    and "length (blocks s') = length (blocks s)"
    and "thread_count s' = thread_count s"
    and "mallocs s' = mallocs s"
  using assms by (auto simp: memcpy_def blk_def split: option.splits if_splits)

lemma memcpy_ok:
  assumes "blk s d = Some ys" and "contents s src n = Some xs" and "off + n \<le> length ys"
    and "src \<noteq> Some d"
  shows "\<exists>s'. memcpy s (Some d) off src n = Done s' \<and>
           blk s' d = Some (take off ys @ xs @ drop (off + n) ys)"
proof (cases "n = 0")
  case True
  with assms show ?thesis by (simp add: memcpy_def contents_def)
next
  case False
  with assms(2) obtain a zs where a: "src = Some a" "blk s a = Some zs" "n \<le> length zs" "xs = take n zs"
    by (auto simp: contents_def split: option.splits if_splits)
  with assms False have "d < length (blocks s)" by (auto simp: blk_def split: if_splits)
  with a assms False show ?thesis by (simp add: memcpy_def blk_def)
qed

lemma merge_facts:
  assumes "merge s result la ls ea es ma ms = Done s'"
  shows "Some b \<noteq> result \<Longrightarrow> blk s' b = blk s b"
    and "length (blocks s') = length (blocks s)"
    and "thread_count s' = thread_count s"
    and "mallocs s' = mallocs s"
proof -
  from assms obtain s1 s2 where
    m: "memcpy s result 0 la ls = Done s1" "memcpy s1 result ls ea es = Done s2"
       "memcpy s2 result (ls + es) ma ms = Done s'"
    by (auto simp: merge_def split: outcome.splits)
  show "Some b \<noteq> result \<Longrightarrow> blk s' b = blk s b"
    using memcpy_facts(1) [OF m(1), of b] memcpy_facts(1) [OF m(2), of b]
      memcpy_facts(1) [OF m(3), of b] by simp
  show "length (blocks s') = length (blocks s)"
    using memcpy_facts(2) [OF m(1)] memcpy_facts(2) [OF m(2)] memcpy_facts(2) [OF m(3)] by simp
  show "thread_count s' = thread_count s"
    using memcpy_facts(3) [OF m(1)] memcpy_facts(3) [OF m(2)] memcpy_facts(3) [OF m(3)] by simp
  show "mallocs s' = mallocs s"
    using memcpy_facts(4) [OF m(1)] memcpy_facts(4) [OF m(2)] memcpy_facts(4) [OF m(3)] by simp
qed

lemma contents_cong:
  "(\<And>a. p = Some a \<Longrightarrow> blk s' a = blk s a) \<Longrightarrow> contents s' p n = contents s p n"
  by (auto simp: contents_def split: option.splits)

lemma merge_ok:
  assumes r: "blk s r = Some R" "length R = ls + es + ms"
    and x: "contents s la ls = Some X" and y: "contents s ea es = Some Y"
    and z: "contents s ma ms = Some Z"
    and ne: "la \<noteq> Some r" "ea \<noteq> Some r" "ma \<noteq> Some r"
  shows "\<exists>s'. merge s (Some r) la ls ea es ma ms = Done s' \<and> blk s' r = Some (X @ Y @ Z)"
proof -
  have lens: "length X = ls" "length Y = es" "length Z = ms"
    using x y z by (auto simp: contents_def split: option.splits if_splits)
  have "0 + ls \<le> length R" using r(2) by simp
  from memcpy_ok [OF r(1) x this ne(1)] obtain s1 where
    s1: "memcpy s (Some r) 0 la ls = Done s1" and b1: "blk s1 r = Some (X @ drop ls R)"
    by auto
  have k1: "blk s1 a = blk s a" if "Some a \<noteq> Some r" for a
    using memcpy_facts(1) [OF s1 that] .
  have y1: "contents s1 ea es = Some Y"
    using y ne(2) contents_cong [of ea s1 s es] k1 by fastforce
  have z1: "contents s1 ma ms = Some Z"
    using z ne(3) contents_cong [of ma s1 s ms] k1 by fastforce
  have "ls + es \<le> length (X @ drop ls R)" using r(2) lens by simp
  from memcpy_ok [OF b1 y1 this ne(2)] obtain s2 where
    s2: "memcpy s1 (Some r) ls ea es = Done s2"
    and b2': "blk s2 r = Some (take ls (X @ drop ls R) @ Y @ drop (ls + es) (X @ drop ls R))"
    by auto
  have "take ls (X @ drop ls R) @ Y @ drop (ls + es) (X @ drop ls R) = X @ Y @ drop (ls + es) R"
    using lens by (simp add: add.commute)
  with b2' have b2: "blk s2 r = Some (X @ Y @ drop (ls + es) R)" by simp
  have k2: "blk s2 a = blk s1 a" if "Some a \<noteq> Some r" for a
    using memcpy_facts(1) [OF s2 that] .
  have z2: "contents s2 ma ms = Some Z"
    using z1 ne(3) contents_cong [of ma s2 s1 ms] k2 by fastforce
  have "ls + es + ms \<le> length (X @ Y @ drop (ls + es) R)" using r(2) lens by simp
  from memcpy_ok [OF b2 z2 this ne(3)] obtain s3 where
    s3: "memcpy s2 (Some r) (ls + es) ma ms = Done s3"
    and b3': "blk s3 r = Some (take (ls + es) (X @ Y @ drop (ls + es) R) @ Z @
                 drop (ls + es + ms) (X @ Y @ drop (ls + es) R))"
    by auto
  have "take (ls + es) (X @ Y @ drop (ls + es) R) @ Z @
          drop (ls + es + ms) (X @ Y @ drop (ls + es) R) = X @ Y @ Z"
    using lens r(2) by simp
  with b3' have "blk s3 r = Some (X @ Y @ Z)" by simp
  with s1 s2 s3 show ?thesis by (simp add: merge_def)
qed

section \<open>What partition leaves untouched\<close>

text \<open>
  The loop writes only into its three output buffers, and \<^verbatim>\<open>partition\<close> only adds buffers:
  every buffer that existed before the call is as it was, for every allocator.
\<close>

lemma partition_loop_stop:
  "\<not> i < sz \<Longrightarrow> partition_loop s arr sz p la ma ea lc mc ec i = Done (s, lc, mc, ec)"
  by (simp add: partition_loop.simps)

lemma partition_loop_step:
  assumes "i < sz" and "partition_loop s arr sz p la ma ea lc mc ec i = Done r"
  obtains
    (lt) v s1 where "load s arr i = Some v" and "v < p" and "store s la lc v = Done s1"
      and "partition_loop s1 arr sz p la ma ea (Suc lc) mc ec (Suc i) = Done r"
  | (gt) v s1 where "load s arr i = Some v" and "p < v" and "store s ma mc v = Done s1"
      and "partition_loop s1 arr sz p la ma ea lc (Suc mc) ec (Suc i) = Done r"
  | (eq) s1 where "load s arr i = Some p" and "store s ea ec p = Done s1"
      and "partition_loop s1 arr sz p la ma ea lc mc (Suc ec) (Suc i) = Done r"
proof -
  from assms obtain v where v: "load s arr i = Some v"
    by (cases "load s arr i") (simp_all add: partition_loop.simps)
  consider "v < p" | "p < v" | "v = p" by linarith
  then show thesis
  proof cases
    case 1
    with assms v obtain s1 where "store s la lc v = Done s1"
      by (cases "store s la lc v") (simp_all add: partition_loop.simps)
    with assms v 1 show thesis by (intro lt [of v s1]) (simp_all add: partition_loop.simps)
  next
    case 2
    with assms v obtain s1 where "store s ma mc v = Done s1"
      by (cases "store s ma mc v") (simp_all add: partition_loop.simps)
    with assms v 2 show thesis by (intro gt [of v s1]) (simp_all add: partition_loop.simps)
  next
    case 3
    with assms v obtain s1 where "store s ea ec v = Done s1"
      by (cases "store s ea ec v") (simp_all add: partition_loop.simps)
    with assms v 3 show thesis by (intro eq [of s1]) (simp_all add: partition_loop.simps)
  qed
qed

lemma partition_loop_frame:
  "partition_loop s arr sz p la ma ea lc mc ec i = Done (s', lc', mc', ec') \<Longrightarrow>
     length (blocks s') = length (blocks s) \<and> thread_count s' = thread_count s \<and>
     mallocs s' = mallocs s \<and>
     (\<forall>b. Some b \<noteq> la \<longrightarrow> Some b \<noteq> ma \<longrightarrow> Some b \<noteq> ea \<longrightarrow> blk s' b = blk s b)"
proof (induction "sz - i" arbitrary: s lc mc ec i)
  case 0
  then show ?case by (simp add: partition_loop_stop)
next
  case (Suc k)
  then have i: "i < sz" by simp
  from i Suc.prems show ?case
  proof (cases rule: partition_loop_step)
    case (lt v s1)
    from Suc.hyps(1) [OF _ lt(4)] Suc.hyps(2) store_facts [OF lt(3)] show ?thesis by simp
  next
    case (gt v s1)
    from Suc.hyps(1) [OF _ gt(4)] Suc.hyps(2) store_facts [OF gt(3)] show ?thesis by simp
  next
    case (eq s1)
    from Suc.hyps(1) [OF _ eq(3)] Suc.hyps(2) store_facts [OF eq(2)] show ?thesis by simp
  qed
qed

lemma partition_c_Done:
  assumes "partition_c al s arr sz p = Done (s', parts)"
  shows "\<exists>s1 la s2 ma s3 ea. malloc al s sz = (s1, la) \<and> malloc al s1 sz = (s2, ma) \<and>
     malloc al s2 sz = (s3, ea) \<and>
     (la = None \<or> ma = None \<or> ea = None \<longrightarrow> s' = s3 \<and> parts = None) \<and>
     (la \<noteq> None \<and> ma \<noteq> None \<and> ea \<noteq> None \<longrightarrow>
        (\<exists>ls ms es. partition_loop s3 arr sz p la ma ea 0 0 0 0 = Done (s', ls, ms, es) \<and>
             parts = Some (la, ls, ea, es, ma, ms)))"
proof -
  obtain s1 la where m1: "malloc al s sz = (s1, la)" by (cases "malloc al s sz")
  obtain s2 ma where m2: "malloc al s1 sz = (s2, ma)" by (cases "malloc al s1 sz")
  obtain s3 ea where m3: "malloc al s2 sz = (s3, ea)" by (cases "malloc al s2 sz")
  have "la = None \<or> ma = None \<or> ea = None \<longrightarrow> s' = s3 \<and> parts = None"
    using assms m1 m2 m3 by (auto simp: partition_c_def split: if_splits outcome.splits)
  moreover have "la \<noteq> None \<and> ma \<noteq> None \<and> ea \<noteq> None \<longrightarrow>
       (\<exists>ls ms es. partition_loop s3 arr sz p la ma ea 0 0 0 0 = Done (s', ls, ms, es) \<and>
             parts = Some (la, ls, ea, es, ma, ms))"
    using assms m1 m2 m3 by (auto simp: partition_c_def split: if_splits outcome.splits)
  ultimately show ?thesis using m1 m2 m3 by blast
qed

lemma partition_c_frame:
  assumes "partition_c al s arr sz p = Done (s', parts)"
  shows "length (blocks s) \<le> length (blocks s')"
    and "b < length (blocks s) \<Longrightarrow> blk s' b = blk s b"
    and "thread_count s' = thread_count s"
    and "parts = Some (la, ls, ea, es, ma, ms) \<Longrightarrow>
           la = Some (length (blocks s)) \<and> ma = Some (Suc (length (blocks s))) \<and>
           ea = Some (Suc (Suc (length (blocks s)))) \<and>
           length (blocks s') = length (blocks s) + 3"
proof -
  from partition_c_Done [OF assms] obtain s1 la' s2 ma' s3 ea' where
    m: "malloc al s sz = (s1, la')" "malloc al s1 sz = (s2, ma')" "malloc al s2 sz = (s3, ea')"
    and fail: "la' = None \<or> ma' = None \<or> ea' = None \<Longrightarrow> s' = s3 \<and> parts = None"
    and ok: "la' \<noteq> None \<Longrightarrow> ma' \<noteq> None \<Longrightarrow> ea' \<noteq> None \<Longrightarrow>
           \<exists>ls ms es. partition_loop s3 arr sz p la' ma' ea' 0 0 0 0 = Done (s', ls, ms, es) \<and>
             parts = Some (la', ls, ea', es, ma', ms)"
    by blast
  note f1 = malloc_facts [OF m(1)] and f2 = malloc_facts [OF m(2)] and f3 = malloc_facts [OF m(3)]
  have len3: "length (blocks s) \<le> length (blocks s3)"
    using f1(2) f2(2) f3(2) by (simp split: if_splits)
  have old3: "blk s3 b = blk s b" if "b < length (blocks s)" for b
  proof -
    have "la' \<noteq> Some b" using f1(3) [of b] that by auto
    moreover have "ma' \<noteq> Some b" using f2(3) [of b] f1(2) that by (auto split: if_splits)
    moreover have "ea' \<noteq> Some b" using f3(3) [of b] f2(2) f1(2) that by (auto split: if_splits)
    ultimately show ?thesis using f1(1) [of b] f2(1) [of b] f3(1) [of b] by simp
  qed
  have tc3: "thread_count s3 = thread_count s" using f1(4) f2(4) f3(4) by simp
  show "length (blocks s) \<le> length (blocks s')"
  proof (cases "la' = None \<or> ma' = None \<or> ea' = None")
    case True
    with fail len3 show ?thesis by simp
  next
    case False
    with ok obtain ls ms es where "partition_loop s3 arr sz p la' ma' ea' 0 0 0 0 = Done (s', ls, ms, es)"
      by auto
    from partition_loop_frame [OF this] len3 show ?thesis by simp
  qed
  show "blk s' b = blk s b" if b: "b < length (blocks s)"
  proof (cases "la' = None \<or> ma' = None \<or> ea' = None")
    case True
    with fail old3 [OF b] show ?thesis by simp
  next
    case False
    with ok obtain ls ms es where l: "partition_loop s3 arr sz p la' ma' ea' 0 0 0 0 = Done (s', ls, ms, es)"
      by auto
    have "la' \<noteq> Some b" using f1(3) [of b] b by auto
    moreover have "ma' \<noteq> Some b" using f2(3) [of b] f1(2) b by (auto split: if_splits)
    moreover have "ea' \<noteq> Some b" using f3(3) [of b] f2(2) f1(2) b by (auto split: if_splits)
    ultimately have "blk s' b = blk s3 b" using partition_loop_frame [OF l] by metis
    with old3 [OF b] show ?thesis by simp
  qed
  show "thread_count s' = thread_count s"
  proof (cases "la' = None \<or> ma' = None \<or> ea' = None")
    case True
    with fail tc3 show ?thesis by simp
  next
    case False
    with ok obtain ls ms es where "partition_loop s3 arr sz p la' ma' ea' 0 0 0 0 = Done (s', ls, ms, es)"
      by auto
    from partition_loop_frame [OF this] tc3 show ?thesis by simp
  qed
  show "la = Some (length (blocks s)) \<and> ma = Some (Suc (length (blocks s))) \<and>
           ea = Some (Suc (Suc (length (blocks s)))) \<and>
           length (blocks s') = length (blocks s) + 3"
    if parts: "parts = Some (la, ls, ea, es, ma, ms)"
  proof -
    have "\<not> (la' = None \<or> ma' = None \<or> ea' = None)"
    proof
      assume "la' = None \<or> ma' = None \<or> ea' = None"
      from fail [OF this] parts show False by simp
    qed
    then have nn: "la' \<noteq> None" "ma' \<noteq> None" "ea' \<noteq> None" by simp_all
    from ok [OF nn] obtain ls' ms' es' where
      l: "partition_loop s3 arr sz p la' ma' ea' 0 0 0 0 = Done (s', ls', ms', es')"
      and pe: "parts = Some (la', ls', ea', es', ma', ms')" by blast
    from pe parts have e: "la' = la" "ma' = ma" "ea' = ea" by simp_all
    from nn obtain x y z where xyz: "la' = Some x" "ma' = Some y" "ea' = Some z" by auto
    have x: "x = length (blocks s)" and l1: "length (blocks s1) = Suc (length (blocks s))"
      using f1(2) f1(3) [of x] xyz(1) by simp_all
    have y: "y = length (blocks s1)" and l2: "length (blocks s2) = Suc (length (blocks s1))"
      using f2(2) f2(3) [of y] xyz(2) by simp_all
    have z: "z = length (blocks s2)" and l3: "length (blocks s3) = Suc (length (blocks s2))"
      using f3(2) f3(3) [of z] xyz(3) by simp_all
    from partition_loop_frame [OF l] have "length (blocks s') = length (blocks s3)" by simp
    then have "length (blocks s') = length (blocks s) + 3" using l1 l2 l3 by simp
    moreover have "la = Some (length (blocks s))" using e(1) xyz(1) x by simp
    moreover have "ma = Some (Suc (length (blocks s)))" using e(2) xyz(2) y l1 by simp
    moreover have "ea = Some (Suc (Suc (length (blocks s))))" using e(3) xyz(3) z l2 l1 by simp
    ultimately show ?thesis by simp
  qed
qed

section \<open>What the sequential sorter leaves untouched\<close>

text \<open>
  One call of \<^verbatim>\<open>quicksort\<close> that returns, taken apart into its steps, and the frame
  property that follows by induction on the size: buffers that existed before the call are
  unchanged, and a pointer that is returned is a new one.
\<close>

lemma quicksort_Done:
  assumes "quicksort al s sz d = Done (s', r)" and "sz \<noteq> 0"
  shows "\<exists>pivot s1 parts. load s d 0 = Some pivot \<and>
     partition_c al s d sz pivot = Done (s1, parts) \<and>
     (parts = None \<longrightarrow> s' = s1 \<and> r = None) \<and>
     (\<forall>la ls ea es ma ms. parts = Some (la, ls, ea, es, ma, ms) \<longrightarrow>
        (\<exists>s2 sl s3 sm s4 s5. quicksort al s1 ls la = Done (s2, sl) \<and>
           quicksort al s2 ms ma = Done (s3, sm) \<and> malloc al s3 sz = (s4, r) \<and>
           merge s4 r sl ls ea es sm ms = Done s5 \<and>
           free_all s5 [la, ma, ea, sl, sm] = Done s'))"
  using assms
  by (subst (asm) quicksort.simps)
     (auto simp del: free_all.simps split: option.splits outcome.splits prod.splits if_splits)

lemma quicksort_frame:
  "quicksort al s sz d = Done (s', r) \<Longrightarrow>
     length (blocks s) \<le> length (blocks s') \<and>
     (\<forall>b < length (blocks s). blk s' b = blk s b) \<and>
     (\<forall>b. r = Some b \<longrightarrow> length (blocks s) \<le> b \<and> b < length (blocks s')) \<and>
     thread_count s' = thread_count s"
proof (induction sz arbitrary: s d s' r rule: less_induct)
  case (less sz)
  show ?case
  proof (cases "sz = 0")
    case True
    with less.prems show ?thesis by (simp add: quicksort.simps)
  next
    case False
    from quicksort_Done [OF less.prems False] obtain pivot s1 parts where
      ld: "load s d 0 = Some pivot" and pc: "partition_c al s d sz pivot = Done (s1, parts)"
      and none: "parts = None \<longrightarrow> s' = s1 \<and> r = None"
      and some: "\<forall>la ls ea es ma ms. parts = Some (la, ls, ea, es, ma, ms) \<longrightarrow>
        (\<exists>s2 sl s3 sm s4 s5. quicksort al s1 ls la = Done (s2, sl) \<and>
           quicksort al s2 ms ma = Done (s3, sm) \<and> malloc al s3 sz = (s4, r) \<and>
           merge s4 r sl ls ea es sm ms = Done s5 \<and>
           free_all s5 [la, ma, ea, sl, sm] = Done s')"
      by blast
    note pf = partition_c_frame [OF pc]
    show ?thesis
    proof (cases parts)
      case None
      with none pf(1,2,3) show ?thesis by simp
    next
      case (Some t)
      obtain la ls ea es ma ms where t: "t = (la, ls, ea, es, ma, ms)" by (cases t)
      with Some have parts: "parts = Some (la, ls, ea, es, ma, ms)" by simp
      from some parts obtain s2 sl s3 sm s4 s5 where
        q1: "quicksort al s1 ls la = Done (s2, sl)" and q2: "quicksort al s2 ms ma = Done (s3, sm)"
        and m: "malloc al s3 sz = (s4, r)" and mg: "merge s4 r sl ls ea es sm ms = Done s5"
        and fr: "free_all s5 [la, ma, ea, sl, sm] = Done s'"
        by blast
      from partition_c_sizes [OF pc [unfolded parts] _ ld] False
      have sizes: "ls < sz" "ms < sz" by simp_all
      let ?n = "length (blocks s)"
      from pf(4) [OF parts] have ptrs: "la = Some ?n" "ma = Some (Suc ?n)" "ea = Some (Suc (Suc ?n))"
        and len1: "length (blocks s1) = ?n + 3" by simp_all
      note i1 = less.IH [OF sizes(1) q1] and i2 = less.IH [OF sizes(2) q2]
      note mf = malloc_facts [OF m] and gf = merge_facts [OF mg] and ff = free_all_facts [OF fr]
      have len: "?n + 3 \<le> length (blocks s2)" "length (blocks s2) \<le> length (blocks s3)"
        "length (blocks s3) \<le> length (blocks s4)" "length (blocks s5) = length (blocks s4)"
        "length (blocks s') = length (blocks s5)"
        using len1 i1 i2 mf(2) gf(2) ff by (simp_all split: if_splits)
      have rb: "length (blocks s3) \<le> b \<and> b < length (blocks s4)" if "r = Some b" for b
        using mf(2) mf(3) [of b] that by simp
      have slb: "?n + 3 \<le> b" if "sl = Some b" for b using i1 len1 that by simp
      have smb: "?n + 3 \<le> b" if "sm = Some b" for b using i2 len(1) that by fastforce
      have old: "blk s' b = blk s b" if b: "b < ?n" for b
      proof -
        have "Some b \<notin> set [la, ma, ea, sl, sm]" using ptrs slb [of b] smb [of b] b by auto
        then have "blk s' b = blk s5 b" using ff by simp
        moreover have nr: "Some b \<noteq> r" using rb [of b] len b by auto
        then have "blk s5 b = blk s4 b" by (rule gf(1))
        moreover have "blk s4 b = blk s3 b" using mf(1) [of b] nr by simp
        moreover have "blk s3 b = blk s2 b" using i2 len b by simp
        moreover have "blk s2 b = blk s1 b" using i1 len1 b by simp
        moreover have "blk s1 b = blk s b" using pf(2) b by simp
        ultimately show ?thesis by simp
      qed
      have "thread_count s' = thread_count s"
        using ff gf(3) mf(4) i2 i1 pf(3) by simp
      with old len rb show ?thesis by fastforce
    qed
  qed
qed

section \<open>The counter does not influence the memory\<close>

text \<open>Reading a buffer does not depend on \<^verbatim>\<open>thread_count\<close>.\<close>

lemma blk_tc [simp]: "blk (s\<lparr>thread_count := c\<rparr>) a = blk s a"
  by (simp add: blk_def)

lemma load_tc [simp]: "load (s\<lparr>thread_count := c\<rparr>) p i = load s p i"
  by (simp add: load_def split: option.splits)

section \<open>The loop of partition on valid buffers\<close>

text \<open>
  With a readable input and three distinct output buffers that are large enough, the loop
  returns, and each output buffer holds the matching elements in input order.
\<close>

lemma filled_init: "blk s a = Some L \<Longrightarrow> filled s a L k []"
  by (simp add: filled_def)

lemma filled_Cons:
  assumes "filled s' a (L[k := v]) (Suc k) F" and "k < length L"
  shows "filled s' a L k (v # F)"
proof -
  from assms(1) obtain L' where L': "blk s' a = Some L'" "length L' = length L"
    "take (Suc k + length F) L' = take (Suc k) (L[k := v]) @ F"
    by (auto simp: filled_def)
  have "take (Suc k) (L[k := v]) = take k L @ [v]"
    using assms(2) by (simp add: take_Suc_conv_app_nth)
  with L' show ?thesis by (auto simp: filled_def)
qed

lemma filled_contents:
  assumes "filled s' a L 0 F" and "length F \<le> length L"
  shows "contents s' (Some a) (length F) = Some F" and "blk s' a \<noteq> None"
  using assms by (auto simp: filled_def contents_def)

lemma load_cong:
  "(\<And>a. p = Some a \<Longrightarrow> blk s' a = blk s a) \<Longrightarrow> load s' p i = load s p i"
  by (auto simp: load_def split: option.splits)

lemma store_step:
  assumes "blk s t = Some T" and "k < length T"
  shows "\<exists>s1. store s (Some t) k v = Done s1 \<and> blk s1 t = Some (T[k := v]) \<and>
           (\<forall>b. b \<noteq> t \<longrightarrow> blk s1 b = blk s b)"
proof -
  let ?s1 = "s\<lparr>blocks := (blocks s)[t := Some (T[k := v])]\<rparr>"
  have "store s (Some t) k v = Done ?s1" using assms by (rule store_ok)
  moreover have "blk ?s1 t = Some (T[k := v])" using blk_live [OF assms(1)] by (simp add: blk_update)
  moreover have "\<forall>b. b \<noteq> t \<longrightarrow> blk ?s1 b = blk s b" by (simp add: blk_update)
  ultimately show ?thesis by blast
qed

lemma partition_loop_ok:
  assumes "length S = sz"
    and "\<And>j. j < sz \<Longrightarrow> load s arr j = Some (S ! j)"
    and "arr \<noteq> Some l" and "arr \<noteq> Some m" and "arr \<noteq> Some e"
    and "l \<noteq> m" and "l \<noteq> e" and "m \<noteq> e"
    and "blk s l = Some L" and "blk s m = Some M" and "blk s e = Some E"
    and "lc + (sz - i) \<le> length L" and "mc + (sz - i) \<le> length M"
    and "ec + (sz - i) \<le> length E"
  shows "\<exists>s'. partition_loop s arr sz p (Some l) (Some m) (Some e) lc mc ec i =
           Done (s', lc + length (filter (\<lambda>x. x < p) (drop i S)),
                     mc + length (filter (\<lambda>x. p < x) (drop i S)),
                     ec + length (filter (\<lambda>x. x = p) (drop i S))) \<and>
         filled s' l L lc (filter (\<lambda>x. x < p) (drop i S)) \<and>
         filled s' m M mc (filter (\<lambda>x. p < x) (drop i S)) \<and>
         filled s' e E ec (filter (\<lambda>x. x = p) (drop i S))"
  using assms
proof (induction "sz - i" arbitrary: s L M E lc mc ec i)
  case 0
  then have "\<not> i < sz" and "drop i S = []" by simp_all
  with 0 show ?case by (simp add: partition_loop_stop filled_init)
next
  case (Suc k)
  from Suc.hyps(2) have i: "i < sz" and k: "k = sz - Suc i" by simp_all
  let ?v = "S ! i"
  have ld: "load s arr i = Some ?v" using Suc.prems(2) i by simp
  have dr: "drop i S = ?v # drop (Suc i) S"
    using i Suc.prems(1) by (simp add: Cons_nth_drop_Suc)
  consider (lt) "?v < p" | (gt) "p < ?v" | (eq) "?v = p" by linarith
  then show ?case
  proof cases
    case lt
    have lcL: "lc < length L" using Suc.prems(12) i by simp
    from store_step [OF Suc.prems(9) lcL, of ?v] obtain s1 where
      st: "store s (Some l) lc ?v = Done s1"
      and b1: "blk s1 l = Some (L[lc := ?v])" and o1: "\<And>b. b \<noteq> l \<Longrightarrow> blk s1 b = blk s b"
      by blast
    have un: "partition_loop s arr sz p (Some l) (Some m) (Some e) lc mc ec i =
        partition_loop s1 arr sz p (Some l) (Some m) (Some e) (Suc lc) mc ec (Suc i)"
      using i ld lt st by (subst partition_loop.simps) simp
    have rd1: "load s1 arr j = Some (S ! j)" if "j < sz" for j
    proof -
      have "load s1 arr j = load s arr j"
        by (rule load_cong) (use Suc.prems(3) o1 in auto)
      with Suc.prems(2) [OF that] show ?thesis by simp
    qed
    have "\<exists>s'. partition_loop s1 arr sz p (Some l) (Some m) (Some e) (Suc lc) mc ec (Suc i) =
           Done (s', Suc lc + length (filter (\<lambda>x. x < p) (drop (Suc i) S)),
                     mc + length (filter (\<lambda>x. p < x) (drop (Suc i) S)),
                     ec + length (filter (\<lambda>x. x = p) (drop (Suc i) S))) \<and>
         filled s' l (L[lc := ?v]) (Suc lc) (filter (\<lambda>x. x < p) (drop (Suc i) S)) \<and>
         filled s' m M mc (filter (\<lambda>x. p < x) (drop (Suc i) S)) \<and>
         filled s' e E ec (filter (\<lambda>x. x = p) (drop (Suc i) S))"
    proof (rule Suc.hyps(1) [OF k Suc.prems(1) rd1 Suc.prems(3,4,5,6,7,8) b1])
      show "blk s1 m = Some M" using o1 [of m] Suc.prems(6,10) by simp
      show "blk s1 e = Some E" using o1 [of e] Suc.prems(7,11) by simp
      show "Suc lc + (sz - Suc i) \<le> length (L[lc := ?v])" using Suc.prems(12) i by simp
      show "mc + (sz - Suc i) \<le> length M" using Suc.prems(13) by simp
      show "ec + (sz - Suc i) \<le> length E" using Suc.prems(14) by simp
    qed
    then obtain s' where
      r: "partition_loop s1 arr sz p (Some l) (Some m) (Some e) (Suc lc) mc ec (Suc i) =
           Done (s', Suc lc + length (filter (\<lambda>x. x < p) (drop (Suc i) S)),
                     mc + length (filter (\<lambda>x. p < x) (drop (Suc i) S)),
                     ec + length (filter (\<lambda>x. x = p) (drop (Suc i) S)))"
      and f: "filled s' l (L[lc := ?v]) (Suc lc) (filter (\<lambda>x. x < p) (drop (Suc i) S))"
        "filled s' m M mc (filter (\<lambda>x. p < x) (drop (Suc i) S))"
        "filled s' e E ec (filter (\<lambda>x. x = p) (drop (Suc i) S))"
      by blast
    from filled_Cons [OF f(1) lcL] f(2,3) r un dr lt show ?thesis by simp
  next
    case gt
    have mcM: "mc < length M" using Suc.prems(13) i by simp
    from store_step [OF Suc.prems(10) mcM, of ?v] obtain s1 where
      st: "store s (Some m) mc ?v = Done s1"
      and b1: "blk s1 m = Some (M[mc := ?v])" and o1: "\<And>b. b \<noteq> m \<Longrightarrow> blk s1 b = blk s b"
      by blast
    have un: "partition_loop s arr sz p (Some l) (Some m) (Some e) lc mc ec i =
        partition_loop s1 arr sz p (Some l) (Some m) (Some e) lc (Suc mc) ec (Suc i)"
      using i ld gt st by (subst partition_loop.simps) simp
    have rd1: "load s1 arr j = Some (S ! j)" if "j < sz" for j
    proof -
      have "load s1 arr j = load s arr j"
        by (rule load_cong) (use Suc.prems(4) o1 in auto)
      with Suc.prems(2) [OF that] show ?thesis by simp
    qed
    have bl: "blk s1 l = Some L" using o1 [of l] Suc.prems(6,9) by simp
    have "\<exists>s'. partition_loop s1 arr sz p (Some l) (Some m) (Some e) lc (Suc mc) ec (Suc i) =
           Done (s', lc + length (filter (\<lambda>x. x < p) (drop (Suc i) S)),
                     Suc mc + length (filter (\<lambda>x. p < x) (drop (Suc i) S)),
                     ec + length (filter (\<lambda>x. x = p) (drop (Suc i) S))) \<and>
         filled s' l L lc (filter (\<lambda>x. x < p) (drop (Suc i) S)) \<and>
         filled s' m (M[mc := ?v]) (Suc mc) (filter (\<lambda>x. p < x) (drop (Suc i) S)) \<and>
         filled s' e E ec (filter (\<lambda>x. x = p) (drop (Suc i) S))"
    proof (rule Suc.hyps(1) [OF k Suc.prems(1) rd1 Suc.prems(3,4,5,6,7,8) bl b1])
      show "blk s1 e = Some E" using o1 [of e] Suc.prems(8,11) by simp
      show "lc + (sz - Suc i) \<le> length L" using Suc.prems(12) by simp
      show "Suc mc + (sz - Suc i) \<le> length (M[mc := ?v])" using Suc.prems(13) i by simp
      show "ec + (sz - Suc i) \<le> length E" using Suc.prems(14) by simp
    qed
    then obtain s' where
      r: "partition_loop s1 arr sz p (Some l) (Some m) (Some e) lc (Suc mc) ec (Suc i) =
           Done (s', lc + length (filter (\<lambda>x. x < p) (drop (Suc i) S)),
                     Suc mc + length (filter (\<lambda>x. p < x) (drop (Suc i) S)),
                     ec + length (filter (\<lambda>x. x = p) (drop (Suc i) S)))"
      and f: "filled s' l L lc (filter (\<lambda>x. x < p) (drop (Suc i) S))"
        "filled s' m (M[mc := ?v]) (Suc mc) (filter (\<lambda>x. p < x) (drop (Suc i) S))"
        "filled s' e E ec (filter (\<lambda>x. x = p) (drop (Suc i) S))"
      by blast
    from filled_Cons [OF f(2) mcM] f(1,3) r un dr gt show ?thesis by simp
  next
    case eq
    have ecE: "ec < length E" using Suc.prems(14) i by simp
    from store_step [OF Suc.prems(11) ecE, of ?v] obtain s1 where
      st: "store s (Some e) ec ?v = Done s1"
      and b1: "blk s1 e = Some (E[ec := ?v])" and o1: "\<And>b. b \<noteq> e \<Longrightarrow> blk s1 b = blk s b"
      by blast
    have un: "partition_loop s arr sz p (Some l) (Some m) (Some e) lc mc ec i =
        partition_loop s1 arr sz p (Some l) (Some m) (Some e) lc mc (Suc ec) (Suc i)"
      using i ld eq st by (subst partition_loop.simps) simp
    have rd1: "load s1 arr j = Some (S ! j)" if "j < sz" for j
    proof -
      have "load s1 arr j = load s arr j"
        by (rule load_cong) (use Suc.prems(5) o1 in auto)
      with Suc.prems(2) [OF that] show ?thesis by simp
    qed
    have bl: "blk s1 l = Some L" using o1 [of l] Suc.prems(7,9) by simp
    have bm: "blk s1 m = Some M" using o1 [of m] Suc.prems(8,10) by simp
    have "\<exists>s'. partition_loop s1 arr sz p (Some l) (Some m) (Some e) lc mc (Suc ec) (Suc i) =
           Done (s', lc + length (filter (\<lambda>x. x < p) (drop (Suc i) S)),
                     mc + length (filter (\<lambda>x. p < x) (drop (Suc i) S)),
                     Suc ec + length (filter (\<lambda>x. x = p) (drop (Suc i) S))) \<and>
         filled s' l L lc (filter (\<lambda>x. x < p) (drop (Suc i) S)) \<and>
         filled s' m M mc (filter (\<lambda>x. p < x) (drop (Suc i) S)) \<and>
         filled s' e (E[ec := ?v]) (Suc ec) (filter (\<lambda>x. x = p) (drop (Suc i) S))"
    proof (rule Suc.hyps(1) [OF k Suc.prems(1) rd1 Suc.prems(3,4,5,6,7,8) bl bm b1])
      show "lc + (sz - Suc i) \<le> length L" using Suc.prems(12) by simp
      show "mc + (sz - Suc i) \<le> length M" using Suc.prems(13) by simp
      show "Suc ec + (sz - Suc i) \<le> length (E[ec := ?v])" using Suc.prems(14) i by simp
    qed
    then obtain s' where
      r: "partition_loop s1 arr sz p (Some l) (Some m) (Some e) lc mc (Suc ec) (Suc i) =
           Done (s', lc + length (filter (\<lambda>x. x < p) (drop (Suc i) S)),
                     mc + length (filter (\<lambda>x. p < x) (drop (Suc i) S)),
                     Suc ec + length (filter (\<lambda>x. x = p) (drop (Suc i) S)))"
      and f: "filled s' l L lc (filter (\<lambda>x. x < p) (drop (Suc i) S))"
        "filled s' m M mc (filter (\<lambda>x. p < x) (drop (Suc i) S))"
        "filled s' e (E[ec := ?v]) (Suc ec) (filter (\<lambda>x. x = p) (drop (Suc i) S))"
      by blast
    from filled_Cons [OF f(3) ecE] f(1,2) r un dr eq show ?thesis by simp
  qed
qed

section \<open>partition when the three allocations succeed\<close>

text \<open>
  The result of \<^verbatim>\<open>partition\<close> in closed form, and the three-way split of a list around
  a pivot.
\<close>

lemma malloc_ok:
  "succeeds al (mallocs s) \<Longrightarrow> \<exists>s'. malloc al s n = (s', Some (length (blocks s)))"
  by (simp add: malloc_def)

lemma contents_length: "contents s p n = Some S \<Longrightarrow> length S = n"
  by (auto simp: contents_def split: option.splits if_splits)

lemma contents_Some:
  assumes "contents s p n = Some S" and "n \<noteq> 0"
  shows "\<exists>a A. p = Some a \<and> blk s a = Some A \<and> n \<le> length A \<and> S = take n A"
  using assms by (auto simp: contents_def split: option.splits if_splits)

lemma partition_c_ok:
  fixes S :: "int list"
  assumes a: "succeeds al (mallocs s)" "succeeds al (Suc (mallocs s))"
      "succeeds al (Suc (Suc (mallocs s)))"
    and c: "contents s arr sz = Some S"
    and n: "n = length (blocks s)"
    and F: "FL = filter (\<lambda>x. x < p) S" "FM = filter (\<lambda>x. p < x) S" "FE = filter (\<lambda>x. x = p) S"
  shows "\<exists>s'. partition_c al s arr sz p =
             Done (s', Some (Some n, length FL, Some (Suc (Suc n)), length FE, Some (Suc n), length FM)) \<and>
           contents s' (Some n) (length FL) = Some FL \<and>
           contents s' (Some (Suc (Suc n))) (length FE) = Some FE \<and>
           contents s' (Some (Suc n)) (length FM) = Some FM \<and>
           blk s' n \<noteq> None \<and> blk s' (Suc n) \<noteq> None \<and> blk s' (Suc (Suc n)) \<noteq> None"
proof -
  have lenS: "length S = sz" using c by (rule contents_length)
  from malloc_ok [OF a(1)] n obtain s1 where m1: "malloc al s sz = (s1, Some n)" by auto
  note f1 = malloc_facts [OF m1]
  have l1: "length (blocks s1) = Suc n" using f1(2) n by simp
  from malloc_ok [of al s1 sz] a(2) f1(5) l1 obtain s2 where m2: "malloc al s1 sz = (s2, Some (Suc n))"
    by auto
  note f2 = malloc_facts [OF m2]
  have l2: "length (blocks s2) = Suc (Suc n)" using f2(2) l1 by simp
  from malloc_ok [of al s2 sz] a(3) f1(5) f2(5) l2 obtain s3 where
    m3: "malloc al s2 sz = (s3, Some (Suc (Suc n)))"
    by auto
  note f3 = malloc_facts [OF m3]
  obtain G1 G2 G3 where G: "blk s3 n = Some G1" "blk s3 (Suc n) = Some G2"
    "blk s3 (Suc (Suc n)) = Some G3" "length G1 = sz" "length G2 = sz" "length G3 = sz"
    using f1(1) [of n] f2(1) [of n] f2(1) [of "Suc n"] f3(1) [of n] f3(1) [of "Suc n"]
      f3(1) [of "Suc (Suc n)"] by simp
  have old: "blk s3 b = blk s b" if "b < n" for b
    using f1(1) [of b] f2(1) [of b] f3(1) [of b] that by simp
  have "\<exists>s'. partition_loop s3 arr sz p (Some n) (Some (Suc n)) (Some (Suc (Suc n))) 0 0 0 0 =
           Done (s', 0 + length (filter (\<lambda>x. x < p) (drop 0 S)),
                     0 + length (filter (\<lambda>x. p < x) (drop 0 S)),
                     0 + length (filter (\<lambda>x. x = p) (drop 0 S))) \<and>
         filled s' n G1 0 (filter (\<lambda>x. x < p) (drop 0 S)) \<and>
         filled s' (Suc n) G2 0 (filter (\<lambda>x. p < x) (drop 0 S)) \<and>
         filled s' (Suc (Suc n)) G3 0 (filter (\<lambda>x. x = p) (drop 0 S))"
  proof (cases "sz = 0")
    case True
    with lenS G show ?thesis by (simp add: partition_loop_stop filled_init)
  next
    case False
    from contents_Some [OF c False] obtain a A where
      A: "arr = Some a" "blk s a = Some A" "sz \<le> length A" "S = take sz A"
      by blast
    have an: "a < n" using blk_live [OF A(2)] n by simp
    show ?thesis
    proof (rule partition_loop_ok [OF lenS])
      fix j assume "j < sz"
      then show "load s3 arr j = Some (S ! j)"
        using A old [OF an] by (simp add: load_def)
    next
      show "arr \<noteq> Some n" "arr \<noteq> Some (Suc n)" "arr \<noteq> Some (Suc (Suc n))"
        using A(1) an by simp_all
      show "n \<noteq> Suc n" "n \<noteq> Suc (Suc n)" "Suc n \<noteq> Suc (Suc n)" by simp_all
      show "blk s3 n = Some G1" "blk s3 (Suc n) = Some G2" "blk s3 (Suc (Suc n)) = Some G3"
        by (rule G)+
      show "0 + (sz - 0) \<le> length G1" "0 + (sz - 0) \<le> length G2" "0 + (sz - 0) \<le> length G3"
        using G by simp_all
    qed
  qed
  then obtain s' where
    lp: "partition_loop s3 arr sz p (Some n) (Some (Suc n)) (Some (Suc (Suc n))) 0 0 0 0 =
           Done (s', length FL, length FM, length FE)"
    and fl: "filled s' n G1 0 FL" "filled s' (Suc n) G2 0 FM" "filled s' (Suc (Suc n)) G3 0 FE"
    using F by auto
  have le: "length FL \<le> length G1" "length FM \<le> length G2" "length FE \<le> length G3"
    using G(4,5,6) lenS F length_filter_le [of _ S] by auto
  have "partition_c al s arr sz p =
      Done (s', Some (Some n, length FL, Some (Suc (Suc n)), length FE, Some (Suc n), length FM))"
    using m1 m2 m3 lp by (simp add: partition_c_def)
  with filled_contents [OF fl(1) le(1)] filled_contents [OF fl(2) le(2)]
    filled_contents [OF fl(3) le(3)]
  show ?thesis by simp
qed

lemma mset_three_way:
  fixes S :: "int list"
  shows "mset (filter (\<lambda>x. x < p) S) + mset (filter (\<lambda>x. x = p) S) + mset (filter (\<lambda>x. p < x) S) = mset S"
  by (induction S) auto

lemma sorted_filter_eq: "sorted (filter (\<lambda>x. x = p) (S :: int list))"
  by (induction S) auto

lemma sort_three_way:
  fixes S :: "int list"
  shows "sort (filter (\<lambda>x. x < p) S) @ filter (\<lambda>x. x = p) S @ sort (filter (\<lambda>x. p < x) S) = sort S"
proof (rule properties_for_sort [symmetric])
  show "mset (sort (filter (\<lambda>x. x < p) S) @ filter (\<lambda>x. x = p) S @ sort (filter (\<lambda>x. p < x) S)) = mset S"
    using mset_three_way [of p S] by (simp add: ac_simps)
  show "sorted (sort (filter (\<lambda>x. x < p) S) @ filter (\<lambda>x. x = p) S @ sort (filter (\<lambda>x. p < x) S))"
    by (auto simp: sorted_append sorted_filter_eq)
qed

section \<open>Further facts used by the claims\<close>

text \<open>
  Reading through a pointer depends on the buffers only, and on the buffers that existed
  when the pointer was valid; a successful \<^verbatim>\<open>partition\<close> means that its three allocations
  succeeded.
\<close>

lemma contents_blocks: "blocks s = blocks t \<Longrightarrow> contents s p n = contents t p n"
  by (rule contents_cong) (simp add: blk_def)

lemma contents_frame:
  assumes "contents s d n = Some S" and "\<And>b. b < length (blocks s) \<Longrightarrow> blk s' b = blk s b"
  shows "contents s' d n = Some S"
proof -
  have "contents s' d n = contents s d n"
  proof (cases "n = 0")
    case True
    then show ?thesis by (simp add: contents_def)
  next
    case False
    from contents_Some [OF assms(1) False] obtain a A where "d = Some a" "blk s a = Some A" by blast
    with assms(2) [of a] blk_live [of s a A] show ?thesis
      by (intro contents_cong) simp
  qed
  with assms(1) show ?thesis by simp
qed

lemma partition_c_Some_succeeds:
  assumes "partition_c al s arr sz p = Done (s', Some t)"
  shows "succeeds al (mallocs s)" and "succeeds al (Suc (mallocs s))"
    and "succeeds al (Suc (Suc (mallocs s)))"
proof -
  from partition_c_Done [OF assms] obtain s1 la s2 ma s3 ea where
    m: "malloc al s sz = (s1, la)" "malloc al s1 sz = (s2, ma)" "malloc al s2 sz = (s3, ea)"
    and fail: "la = None \<or> ma = None \<or> ea = None \<longrightarrow> s' = s3 \<and> Some t = None"
    by blast
  from fail have nn: "la \<noteq> None" "ma \<noteq> None" "ea \<noteq> None" by auto
  note f1 = malloc_facts [OF m(1)] and f2 = malloc_facts [OF m(2)] and f3 = malloc_facts [OF m(3)]
  show "succeeds al (mallocs s)" using nn(1) f1(6) by simp
  show "succeeds al (Suc (mallocs s))" using nn(2) f2(6) f1(5) by simp
  show "succeeds al (Suc (Suc (mallocs s)))" using nn(3) f3(6) f2(5) f1(5) by simp
qed

section \<open>What the threaded sorter leaves untouched\<close>

text \<open>
  The same frame property for \<^verbatim>\<open>quicksort_threaded\<close>, for every allocator and every
  scheduler: a call that returns has changed no buffer that existed before, and a
  pointer it returns is a buffer that did not exist before. On an empty input the call
  only counts itself.
\<close>

lemma quicksort_threaded_empty:
  "quicksort_threaded al sch s \<lparr>args_data = d, args_size = 0\<rparr> =
     Done (s\<lparr>thread_count := thread_count s + 1\<rparr>, None)"
  by (simp add: quicksort_threaded.simps)

lemma after_join_Done:
  assumes "after_join al s3 sz la ls ea es ma ms sl sm = Done (s', r)"
  shows "\<exists>s4 s5. malloc al s3 sz = (s4, r) \<and> merge s4 r sl ls ea es sm ms = Done s5 \<and>
           free_all s5 [la, ma, ea, sl, sm] = Done s'"
  using assms
  by (auto simp: after_join_def simp del: free_all.simps split: prod.splits outcome.splits)

lemma after_join_frame:
  assumes "after_join al s3 sz la ls ea es ma ms sl sm = Done (s', r)"
  shows "length (blocks s3) \<le> length (blocks s')"
    and "b < length (blocks s3) \<Longrightarrow> Some b \<notin> set [la, ma, ea, sl, sm] \<Longrightarrow> blk s' b = blk s3 b"
    and "r = Some b \<Longrightarrow> b = length (blocks s3) \<and> b < length (blocks s')"
    and "thread_count s' = thread_count s3"
proof -
  from after_join_Done [OF assms] obtain s4 s5 where
    m: "malloc al s3 sz = (s4, r)" and mg: "merge s4 r sl ls ea es sm ms = Done s5"
    and fr: "free_all s5 [la, ma, ea, sl, sm] = Done s'"
    by blast
  note mf = malloc_facts [OF m] and gf = merge_facts [OF mg] and ff = free_all_facts [OF fr]
  show "length (blocks s3) \<le> length (blocks s')"
    using mf(2) gf(2) ff by (simp split: if_splits)
  show "r = Some b \<Longrightarrow> b = length (blocks s3) \<and> b < length (blocks s')"
    using mf(2) mf(3) [of b] gf(2) ff by simp
  show "thread_count s' = thread_count s3" using mf(4) gf(3) ff by simp
  show "blk s' b = blk s3 b" if b: "b < length (blocks s3)" and nf: "Some b \<notin> set [la, ma, ea, sl, sm]"
  proof -
    have "blk s' b = blk s5 b" using ff nf by simp
    moreover have nr: "Some b \<noteq> r" using mf(3) [of b] b by auto
    then have "blk s5 b = blk s4 b" by (rule gf(1))
    moreover have "blk s4 b = blk s3 b" using mf(1) [of b] nr by simp
    ultimately show ?thesis by simp
  qed
qed

lemma quicksort_threaded_Done:
  assumes "quicksort_threaded al sch s \<lparr>args_data = d, args_size = sz\<rparr> = Done (s', r)"
    and "sz \<noteq> 0"
  shows "\<exists>pivot s1 parts. load s d 0 = Some pivot \<and>
     partition_c al (s\<lparr>thread_count := thread_count s + 1\<rparr>) d sz pivot = Done (s1, parts) \<and>
     (parts = None \<longrightarrow> s' = s1 \<and> r = None) \<and>
     (\<forall>la ls ea es ma ms. parts = Some (la, ls, ea, es, ma, ms) \<longrightarrow>
        creates_less sch (thread_count s1) \<and> creates_more sch (thread_count s1) \<and>
        (\<exists>s2 s3 sl sm.
           (if less_first sch (thread_count s1)
            then quicksort_threaded al sch s1 \<lparr>args_data = la, args_size = ls\<rparr> = Done (s2, sl) \<and>
                 quicksort_threaded al sch s2 \<lparr>args_data = ma, args_size = ms\<rparr> = Done (s3, sm)
            else quicksort_threaded al sch s1 \<lparr>args_data = ma, args_size = ms\<rparr> = Done (s2, sm) \<and>
                 quicksort_threaded al sch s2 \<lparr>args_data = la, args_size = ls\<rparr> = Done (s3, sl)) \<and>
           after_join al s3 sz la ls ea es ma ms sl sm = Done (s', r)))"
  using assms
  by (subst (asm) quicksort_threaded.simps)
     (auto simp: Let_def split: option.splits outcome.splits prod.splits if_splits)

lemma grown_twice:
  assumes "grown s1 s2 r1" and "grown s2 s3 r2"
  shows "length (blocks s1) \<le> length (blocks s3)"
    and "b < length (blocks s1) \<Longrightarrow> blk s3 b = blk s1 b"
    and "r1 = Some b \<or> r2 = Some b \<Longrightarrow> length (blocks s1) \<le> b \<and> b < length (blocks s3)"
  using assms by (auto simp: grown_def)

lemma quicksort_threaded_grown:
  "quicksort_threaded al sch s \<lparr>args_data = d, args_size = sz\<rparr> = Done (s', r) \<Longrightarrow> grown s s' r"
proof (induction sz arbitrary: s d s' r rule: less_induct)
  case (less sz)
  let ?s = "s\<lparr>thread_count := thread_count s + 1\<rparr>"
  show ?case
  proof (cases "sz = 0")
    case True
    with less.prems show ?thesis by (auto simp: quicksort_threaded_empty grown_def)
  next
    case False
    from quicksort_threaded_Done [OF less.prems False] obtain pivot s1 parts where
      ld: "load s d 0 = Some pivot" and pc: "partition_c al ?s d sz pivot = Done (s1, parts)"
      and none: "parts = None \<longrightarrow> s' = s1 \<and> r = None"
      and some: "\<forall>la ls ea es ma ms. parts = Some (la, ls, ea, es, ma, ms) \<longrightarrow>
        creates_less sch (thread_count s1) \<and> creates_more sch (thread_count s1) \<and>
        (\<exists>s2 s3 sl sm.
           (if less_first sch (thread_count s1)
            then quicksort_threaded al sch s1 \<lparr>args_data = la, args_size = ls\<rparr> = Done (s2, sl) \<and>
                 quicksort_threaded al sch s2 \<lparr>args_data = ma, args_size = ms\<rparr> = Done (s3, sm)
            else quicksort_threaded al sch s1 \<lparr>args_data = ma, args_size = ms\<rparr> = Done (s2, sm) \<and>
                 quicksort_threaded al sch s2 \<lparr>args_data = la, args_size = ls\<rparr> = Done (s3, sl)) \<and>
           after_join al s3 sz la ls ea es ma ms sl sm = Done (s', r))"
      by blast
    note pf = partition_c_frame [OF pc]
    have pf1: "length (blocks s) \<le> length (blocks s1)" using pf(1) by simp
    have pf2: "blk s1 b = blk s b" if "b < length (blocks s)" for b using pf(2) [of b] that by simp
    show ?thesis
    proof (cases parts)
      case None
      with none pf1 pf2 show ?thesis by (simp add: grown_def)
    next
      case (Some t)
      obtain la ls ea es ma ms where t: "t = (la, ls, ea, es, ma, ms)" by (cases t)
      with Some have parts: "parts = Some (la, ls, ea, es, ma, ms)" by simp
      from some parts obtain s2 s3 sl sm where
        ch: "if less_first sch (thread_count s1)
            then quicksort_threaded al sch s1 \<lparr>args_data = la, args_size = ls\<rparr> = Done (s2, sl) \<and>
                 quicksort_threaded al sch s2 \<lparr>args_data = ma, args_size = ms\<rparr> = Done (s3, sm)
            else quicksort_threaded al sch s1 \<lparr>args_data = ma, args_size = ms\<rparr> = Done (s2, sm) \<and>
                 quicksort_threaded al sch s2 \<lparr>args_data = la, args_size = ls\<rparr> = Done (s3, sl)"
        and aj: "after_join al s3 sz la ls ea es ma ms sl sm = Done (s', r)"
        by blast
      have ld': "load ?s d 0 = Some pivot" using ld by simp
      have "0 < sz" using False by simp
      from partition_c_sizes [OF pc [unfolded parts] this ld']
      have sizes: "ls < sz" "ms < sz" by linarith+
      let ?n = "length (blocks s)"
      from pf(4) [OF parts] have ptrs: "la = Some ?n" "ma = Some (Suc ?n)" "ea = Some (Suc (Suc ?n))"
        and len1: "length (blocks s1) = ?n + 3" by simp_all
      obtain r1 r2 where g1: "grown s1 s2 r1" and g2: "grown s2 s3 r2"
        and rr: "(sl = r1 \<and> sm = r2) \<or> (sl = r2 \<and> sm = r1)"
      proof (cases "less_first sch (thread_count s1)")
        case True
        with ch have q: "quicksort_threaded al sch s1 \<lparr>args_data = la, args_size = ls\<rparr> = Done (s2, sl)"
          "quicksort_threaded al sch s2 \<lparr>args_data = ma, args_size = ms\<rparr> = Done (s3, sm)"
          by simp_all
        have "grown s1 s2 sl" "grown s2 s3 sm"
          using less.IH [OF sizes(1) q(1)] less.IH [OF sizes(2) q(2)] .
        then show thesis using that by blast
      next
        case False
        with ch have q: "quicksort_threaded al sch s1 \<lparr>args_data = ma, args_size = ms\<rparr> = Done (s2, sm)"
          "quicksort_threaded al sch s2 \<lparr>args_data = la, args_size = ls\<rparr> = Done (s3, sl)"
          by simp_all
        have "grown s1 s2 sm" "grown s2 s3 sl"
          using less.IH [OF sizes(2) q(1)] less.IH [OF sizes(1) q(2)] .
        then show thesis using that by blast
      qed
      note gt = grown_twice [OF g1 g2]
      note af = after_join_frame [OF aj]
      have slb: "?n + 3 \<le> b" if "sl = Some b" for b using gt(3) [of b] rr that len1 by auto
      have smb: "?n + 3 \<le> b" if "sm = Some b" for b using gt(3) [of b] rr that len1 by auto
      have len3: "?n + 3 \<le> length (blocks s3)" using gt(1) len1 by simp
      have old: "blk s' b = blk s b" if b: "b < ?n" for b
      proof -
        have "Some b \<notin> set [la, ma, ea, sl, sm]" using ptrs slb [of b] smb [of b] b by auto
        moreover have "b < length (blocks s3)" using b len3 by simp
        ultimately have "blk s' b = blk s3 b" by (rule af(2) [rotated])
        moreover have "blk s3 b = blk s1 b" using gt(2) [of b] b len1 by simp
        ultimately show ?thesis using pf2 [OF b] by simp
      qed
      have "length (blocks s) \<le> length (blocks s')" using af(1) len3 by simp
      moreover have "length (blocks s) \<le> b \<and> b < length (blocks s')" if "r = Some b" for b
        using af(3) [OF that] len3 by simp
      ultimately show ?thesis using old by (simp add: grown_def)
    qed
  qed
qed

lemma quicksort_threaded_frame:
  assumes "quicksort_threaded al sch s \<lparr>args_data = d, args_size = sz\<rparr> = Done (s', r)"
  shows "length (blocks s) \<le> length (blocks s')"
    and "b < length (blocks s) \<Longrightarrow> blk s' b = blk s b"
    and "r = Some b \<Longrightarrow> length (blocks s) \<le> b \<and> b < length (blocks s')"
  using quicksort_threaded_grown [OF assms] by (simp_all add: grown_def)

lemma quicksort_grown: "quicksort al s sz d = Done (s', r) \<Longrightarrow> grown s s' r"
  using quicksort_frame [of al s sz d s' r] by (simp add: grown_def)

section \<open>Counting the allocations\<close>


lemma run_ok_add: "run_ok al m (a + b) = (run_ok al m a \<and> run_ok al (m + a) b)"
proof
  assume r: "run_ok al m (a + b)"
  show "run_ok al m a \<and> run_ok al (m + a) b"
    using r by (simp add: run_ok_def)
next
  assume r: "run_ok al m a \<and> run_ok al (m + a) b"
  show "run_ok al m (a + b)"
    unfolding run_ok_def
  proof (intro allI impI)
    fix k assume k: "m \<le> k \<and> k < m + (a + b)"
    show "succeeds al k"
    proof (cases "k < m + a")
      case True
      with r k show ?thesis by (simp add: run_ok_def)
    next
      case False
      with r k show ?thesis by (simp add: run_ok_def)
    qed
  qed
qed

lemma run_ok_one: "run_ok al m 1 = succeeds al m"
  by (auto simp: run_ok_def le_less_Suc_eq)

lemma run_ok_all: "\<forall>k. succeeds al k \<Longrightarrow> run_ok al m n"
  by (simp add: run_ok_def)

lemma run_ok_three:
  "run_ok al m 3 = (succeeds al m \<and> succeeds al (Suc m) \<and> succeeds al (Suc (Suc m)))"
proof -
  have "run_ok al m (1 + (1 + 1)) = (succeeds al m \<and> succeeds al (Suc m) \<and> succeeds al (Suc (Suc m)))"
    unfolding run_ok_add run_ok_one by simp
  then show ?thesis by (simp add: numeral_3_eq_3)
qed

lemma partition_c_mallocs:
  assumes "partition_c al s arr sz p = Done (s', parts)"
  shows "mallocs s' = mallocs s + 3"
proof -
  from partition_c_Done [OF assms] obtain s1 la s2 ma s3 ea where
    m: "malloc al s sz = (s1, la)" "malloc al s1 sz = (s2, ma)" "malloc al s2 sz = (s3, ea)"
    and fail: "la = None \<or> ma = None \<or> ea = None \<longrightarrow> s' = s3 \<and> parts = None"
    and ok: "la \<noteq> None \<and> ma \<noteq> None \<and> ea \<noteq> None \<longrightarrow>
       (\<exists>ls ms es. partition_loop s3 arr sz p la ma ea 0 0 0 0 = Done (s', ls, ms, es) \<and>
             parts = Some (la, ls, ea, es, ma, ms))"
    by blast
  have m3: "mallocs s3 = mallocs s + 3"
    using malloc_facts(5) [OF m(1)] malloc_facts(5) [OF m(2)] malloc_facts(5) [OF m(3)] by simp
  show ?thesis
  proof (cases "la = None \<or> ma = None \<or> ea = None")
    case True
    with fail m3 show ?thesis by simp
  next
    case False
    with ok obtain ls ms es where "partition_loop s3 arr sz p la ma ea 0 0 0 0 = Done (s', ls, ms, es)"
      by auto
    from partition_loop_frame [OF this] m3 show ?thesis by simp
  qed
qed

lemma card_three_way:
  fixes S :: "int list"
  assumes "p \<in> set S"
  shows "card (set S) = card (set (filter (\<lambda>x. x < p) S)) + card (set (filter (\<lambda>x. p < x) S)) + 1"
proof -
  let ?L = "set (filter (\<lambda>x. x < p) S)" and ?M = "set (filter (\<lambda>x. p < x) S)"
  have e: "set S = insert p (?L \<union> ?M)" using assms by auto
  have d: "?L \<inter> ?M = {}" by auto
  have n: "p \<notin> ?L \<union> ?M" by auto
  have f: "finite (?L \<union> ?M)" by simp
  have "card (set S) = card (insert p (?L \<union> ?M))"
    by (rule arg_cong [where f = card, OF e])
  also have "\<dots> = Suc (card (?L \<union> ?M))"
    using f n by (rule card_insert_disjoint)
  also have "card (?L \<union> ?M) = card ?L + card ?M"
    by (rule card_Un_disjoint [OF _ _ d]) simp_all
  finally show ?thesis by simp
qed

lemma after_join_mallocs:
  assumes "after_join al s3 sz la ls ea es ma ms sl sm = Done (s', r)"
  shows "mallocs s' = Suc (mallocs s3)" and "(r \<noteq> None) = succeeds al (mallocs s3)"
proof -
  from after_join_Done [OF assms] obtain s4 s5 where
    m: "malloc al s3 sz = (s4, r)" and mg: "merge s4 r sl ls ea es sm ms = Done s5"
    and fr: "free_all s5 [la, ma, ea, sl, sm] = Done s'"
    by blast
  show "mallocs s' = Suc (mallocs s3)"
    using malloc_facts(5) [OF m] merge_facts(4) [OF mg] free_all_facts [OF fr] by simp
  show "(r \<noteq> None) = succeeds al (mallocs s3)" using malloc_facts(6) [OF m] .
qed

section \<open>The sorters when their allocations succeed\<close>

text \<open>
  On a readable input \<open>S\<close>, when the \<open>4 * card (set S)\<close> calls of \<^verbatim>\<open>malloc\<close> that follow
  succeed, a sorter returns a buffer that holds \<open>S\<close> sorted, and has called \<^verbatim>\<open>malloc\<close>
  exactly that often. The step from the partitions to the whole is the same for both
  sorters and for both orders of the two recursive calls: the call that runs second
  finds its partition as \<^verbatim>\<open>partition\<close> left it, and the result of the call that ran first
  is still there when both are merged. For \<^verbatim>\<open>quicksort_threaded\<close> every thread must be
  created.
\<close>

lemma after_join_ok:
  assumes ok: "succeeds al (mallocs s3)"
    and x: "contents s3 sl ls = Some X" and y: "contents s3 (Some e) es = Some Y"
    and z: "contents s3 sm ms = Some Z"
    and sz: "sz = ls + es + ms"
    and live: "blk s3 l \<noteq> None" "blk s3 m \<noteq> None" "blk s3 e \<noteq> None"
    and nul: "ls = 0 \<longrightarrow> sl = None" "ms = 0 \<longrightarrow> sm = None"
    and dist: "l \<noteq> m" "l \<noteq> e" "m \<noteq> e"
    and dl: "\<And>b. sl = Some b \<Longrightarrow> b \<noteq> l \<and> b \<noteq> m \<and> b \<noteq> e"
    and dm: "\<And>b. sm = Some b \<Longrightarrow> b \<noteq> l \<and> b \<noteq> m \<and> b \<noteq> e"
    and dlm: "\<And>b. sl = Some b \<Longrightarrow> sm \<noteq> Some b"
  shows "\<exists>s'. after_join al s3 sz (Some l) ls (Some e) es (Some m) ms sl sm =
             Done (s', Some (length (blocks s3))) \<and>
           blk s' (length (blocks s3)) = Some (X @ Y @ Z)"
proof -
  define n3 where "n3 = length (blocks s3)"
  from malloc_ok [OF ok, of sz] n3_def obtain s4 where m: "malloc al s3 sz = (s4, Some n3)"
    by auto
  note mf = malloc_facts [OF m]
  have k4: "blk s4 b = blk s3 b" if "b \<noteq> n3" for b using mf(1) [of b] that by simp
  obtain G where r4: "blk s4 n3 = Some G" and lenG: "length G = ls + es + ms"
    using mf(1) [of n3] sz by simp
  have lt: "b < n3" if "blk s3 b \<noteq> None" for b
    using that n3_def by (auto simp: blk_def split: if_splits)
  have slb: "b < n3" if "sl = Some b" for b
  proof -
    from that nul(1) have "ls \<noteq> 0" by auto
    from contents_Some [OF x this] that have "blk s3 b \<noteq> None" by auto
    then show ?thesis by (rule lt)
  qed
  have smb: "b < n3" if "sm = Some b" for b
  proof -
    from that nul(2) have "ms \<noteq> 0" by auto
    from contents_Some [OF z this] that have "blk s3 b \<noteq> None" by auto
    then show ?thesis by (rule lt)
  qed
  have x4: "contents s4 sl ls = Some X"
  proof -
    have "contents s4 sl ls = contents s3 sl ls"
      by (rule contents_cong) (use slb k4 in fastforce)
    with x show ?thesis by simp
  qed
  have y4: "contents s4 (Some e) es = Some Y"
  proof -
    have "contents s4 (Some e) es = contents s3 (Some e) es"
      by (rule contents_cong) (use lt [OF live(3)] k4 in fastforce)
    with y show ?thesis by simp
  qed
  have z4: "contents s4 sm ms = Some Z"
  proof -
    have "contents s4 sm ms = contents s3 sm ms"
      by (rule contents_cong) (use smb k4 in fastforce)
    with z show ?thesis by simp
  qed
  have ne: "sl \<noteq> Some n3" "Some e \<noteq> Some n3" "sm \<noteq> Some n3"
    using slb [of n3] smb [of n3] lt [OF live(3)] by auto
  from merge_ok [OF r4 lenG x4 y4 z4 ne] obtain s5 where
    mg: "merge s4 (Some n3) sl ls (Some e) es sm ms = Done s5"
    and r5: "blk s5 n3 = Some (X @ Y @ Z)"
    by blast
  have k5: "blk s5 b = blk s3 b" if "b \<noteq> n3" for b
    using merge_facts(1) [OF mg, of b] k4 [OF that] that by simp
  let ?ps = "[Some l, Some m, Some e, sl, sm]"
  have live5: "\<exists>xs. blk s5 b = Some xs" if "blk s3 b \<noteq> None" for b
    using k5 [of b] lt [OF that] that by auto
  have livesl: "\<exists>xs. blk s5 b = Some xs" if "sl = Some b" for b
  proof -
    from that nul(1) have "ls \<noteq> 0" by auto
    from contents_Some [OF x this] that have "blk s3 b \<noteq> None" by auto
    then show ?thesis by (rule live5)
  qed
  have livesm: "\<exists>xs. blk s5 b = Some xs" if "sm = Some b" for b
  proof -
    from that nul(2) have "ms \<noteq> 0" by auto
    from contents_Some [OF z this] that have "blk s3 b \<noteq> None" by auto
    then show ?thesis by (rule live5)
  qed
  have "p = None \<or> (\<exists>a xs. p = Some a \<and> blk s5 a = Some xs)" if "p \<in> set ?ps" for p
  proof -
    from that consider "p = Some l" | "p = Some m" | "p = Some e" | "p = sl" | "p = sm" by auto
    then show ?thesis
    proof cases
      case 1
      with live5 [OF live(1)] show ?thesis by simp
    next
      case 2
      with live5 [OF live(2)] show ?thesis by simp
    next
      case 3
      with live5 [OF live(3)] show ?thesis by simp
    next
      case 4
      with livesl show ?thesis by (cases sl) simp_all
    next
      case 5
      with livesm show ?thesis by (cases sm) simp_all
    qed
  qed
  then have all_live: "\<forall>p \<in> set ?ps. p = None \<or> (\<exists>a xs. p = Some a \<and> blk s5 a = Some xs)"
    by blast
  have dist5: "distinct (filter (\<lambda>p. p \<noteq> None) ?ps)"
  proof (cases sl)
    case None
    with dist dm show ?thesis by (cases sm) auto
  next
    case (Some b)
    with dist dl [OF Some] dm dlm [OF Some] show ?thesis by (cases sm) auto
  qed
  from free_all_ok [OF all_live dist5] obtain s6 where fa: "free_all s5 ?ps = Done s6" by blast
  have "Some n3 \<notin> set ?ps" using ne lt [OF live(1)] lt [OF live(2)] lt [OF live(3)] by auto
  then have "blk s6 n3 = blk s5 n3" using free_all_facts [OF fa] by simp
  with r5 have "blk s6 n3 = Some (X @ Y @ Z)" by simp
  moreover have "after_join al s3 sz (Some l) ls (Some e) es (Some m) ms sl sm = Done (s6, Some n3)"
    using m mg fa by (simp add: after_join_def del: free_all.simps)
  ultimately show ?thesis unfolding n3_def by blast
qed

text \<open>Two sorter calls in a row, for a sorter \<open>f\<close> that is known to work on sizes below \<open>sz\<close>.\<close>

lemma two_children:
  fixes F1 F2 :: "int list"
  assumes ih: "\<forall>n s p F. n < sz \<longrightarrow> contents s p n = Some F \<longrightarrow>
        run_ok al (mallocs s) (4 * card (set F)) \<longrightarrow>
        (\<exists>s' r. f s n p = Done (s', r) \<and> contents s' r n = Some (sort F) \<and>
           (n = 0 \<longrightarrow> r = None) \<and> mallocs s' = mallocs s + 4 * card (set F))"
    and gr: "\<forall>s n p s' r. f s n p = Done (s', r) \<longrightarrow> grown s s' r"
    and f1: "contents s1 p1 n1 = Some F1" and f2: "contents s1 p2 n2 = Some F2"
    and n1: "n1 < sz" and n2: "n2 < sz"
    and run: "run_ok al (mallocs s1) (4 * card (set F1) + 4 * card (set F2))"
  shows "\<exists>s2 r1 s3 r2. f s1 n1 p1 = Done (s2, r1) \<and> f s2 n2 p2 = Done (s3, r2) \<and>
      contents s3 r1 n1 = Some (sort F1) \<and> contents s3 r2 n2 = Some (sort F2) \<and>
      (n1 = 0 \<longrightarrow> r1 = None) \<and> (n2 = 0 \<longrightarrow> r2 = None) \<and>
      grown s1 s2 r1 \<and> grown s2 s3 r2 \<and>
      mallocs s3 = mallocs s1 + 4 * card (set F1) + 4 * card (set F2)"
proof -
  from run have r1: "run_ok al (mallocs s1) (4 * card (set F1))"
    and r2: "run_ok al (mallocs s1 + 4 * card (set F1)) (4 * card (set F2))"
    by (simp_all add: run_ok_add)
  from ih [rule_format, OF n1 f1 r1] obtain s2 r1 where
    q1: "f s1 n1 p1 = Done (s2, r1)"
    and cr1: "contents s2 r1 n1 = Some (sort F1)" and z1: "n1 = 0 \<longrightarrow> r1 = None"
    and m2: "mallocs s2 = mallocs s1 + 4 * card (set F1)"
    by blast
  note g1 = gr [rule_format, OF q1]
  have f2': "contents s2 p2 n2 = Some F2"
    by (rule contents_frame [OF f2]) (use g1 in \<open>simp add: grown_def\<close>)
  from r2 m2 have "run_ok al (mallocs s2) (4 * card (set F2))" by simp
  from ih [rule_format, OF n2 f2' this] obtain s3 r2 where
    q2: "f s2 n2 p2 = Done (s3, r2)"
    and cr2: "contents s3 r2 n2 = Some (sort F2)" and z2: "n2 = 0 \<longrightarrow> r2 = None"
    and m3: "mallocs s3 = mallocs s2 + 4 * card (set F2)"
    by blast
  note g2 = gr [rule_format, OF q2]
  have cr1': "contents s3 r1 n1 = Some (sort F1)"
    by (rule contents_frame [OF cr1]) (use g2 in \<open>simp add: grown_def\<close>)
  have m: "mallocs s3 = mallocs s1 + 4 * card (set F1) + 4 * card (set F2)"
    using m2 m3 by simp
  show ?thesis
    by (intro exI conjI) (rule q1 q2 cr1' cr2 z1 z2 g1 g2 m)+
qed

lemma parent_run:
  fixes S :: "int list"
  assumes ih: "\<forall>n s p F. n < sz \<longrightarrow> contents s p n = Some F \<longrightarrow>
        run_ok al (mallocs s) (4 * card (set F)) \<longrightarrow>
        (\<exists>s' r. f s n p = Done (s', r) \<and> contents s' r n = Some (sort F) \<and>
           (n = 0 \<longrightarrow> r = None) \<and> mallocs s' = mallocs s + 4 * card (set F))"
    and gr: "\<forall>s n p s' r. f s n p = Done (s', r) \<longrightarrow> grown s s' r"
    and c: "contents s d sz = Some S" and nz: "sz \<noteq> 0"
    and run: "run_ok al (mallocs s) (4 * card (set S))"
  shows "\<exists>pivot n s1 ls es ms s2 s3 sl sm s'.
      load s d 0 = Some pivot \<and>
      partition_c al s d sz pivot =
        Done (s1, Some (Some n, ls, Some (Suc (Suc n)), es, Some (Suc n), ms)) \<and>
      (if lf s1 then f s1 ls (Some n) = Done (s2, sl) \<and> f s2 ms (Some (Suc n)) = Done (s3, sm)
       else f s1 ms (Some (Suc n)) = Done (s2, sm) \<and> f s2 ls (Some n) = Done (s3, sl)) \<and>
      after_join al s3 sz (Some n) ls (Some (Suc (Suc n))) es (Some (Suc n)) ms sl sm =
        Done (s', Some (length (blocks s3))) \<and>
      contents s' (Some (length (blocks s3))) sz = Some (sort S) \<and>
      mallocs s' = mallocs s + 4 * card (set S)"
proof -
  from contents_Some [OF c nz] obtain a A where
    A: "d = Some a" "blk s a = Some A" "sz \<le> length A" "S = take sz A"
    by blast
  define pivot where "pivot = A ! 0"
  define n where "n = length (blocks s)"
  define FL where "FL = filter (\<lambda>x. x < pivot) S"
  define FM where "FM = filter (\<lambda>x. pivot < x) S"
  define FE where "FE = filter (\<lambda>x. x = pivot) S"
  define cl where "cl = 4 * card (set FL)"
  define cm where "cm = 4 * card (set FM)"
  have lenA: "0 < length A" using A(3) nz by linarith
  then have ld: "load s d 0 = Some pivot" using A by (simp add: load_def pivot_def)
  have "S ! 0 = pivot" using A(4) nz by (simp add: pivot_def)
  moreover have "0 < length S" using A(3,4) nz by simp
  ultimately have "pivot \<in> set S" using nth_mem [of 0 S] by simp
  from card_three_way [OF this] have card: "4 * card (set S) = 3 + (cl + cm + 1)"
    by (simp add: cl_def cm_def FL_def FM_def)
  from run have "run_ok al (mallocs s) (3 + (cl + cm + 1))" by (simp only: card)
  then have r3: "run_ok al (mallocs s) 3" and "run_ok al (mallocs s + 3) (cl + cm + 1)"
    by (simp_all only: run_ok_add [of al "mallocs s" 3 "cl + cm + 1"])
  then have rch: "run_ok al (mallocs s + 3) (cl + cm)"
    and r1: "run_ok al (mallocs s + 3 + (cl + cm)) 1"
    by (simp_all only: run_ok_add [of al "mallocs s + 3" "cl + cm" 1])
  from r3 have a3: "succeeds al (mallocs s)" "succeeds al (Suc (mallocs s))"
    "succeeds al (Suc (Suc (mallocs s)))" by (simp_all add: run_ok_three)
  from partition_c_ok [OF a3 c n_def FL_def FM_def FE_def] obtain s1 where
    pc: "partition_c al s d sz pivot =
      Done (s1, Some (Some n, length FL, Some (Suc (Suc n)), length FE, Some (Suc n), length FM))"
    and c1: "contents s1 (Some n) (length FL) = Some FL"
      "contents s1 (Some (Suc (Suc n))) (length FE) = Some FE"
      "contents s1 (Some (Suc n)) (length FM) = Some FM"
    and live1: "blk s1 n \<noteq> None" "blk s1 (Suc n) \<noteq> None" "blk s1 (Suc (Suc n)) \<noteq> None"
    by blast
  have "0 < sz" using nz by simp
  from partition_c_sizes [OF pc this ld]
  have sizes: "length FL + length FE + length FM = sz" "length FL < sz" "length FM < sz"
    by linarith+
  have len1: "length (blocks s1) = n + 3"
    using partition_c_frame(4) [OF pc refl] n_def by simp
  have m1: "mallocs s1 = mallocs s + 3" using pc by (rule partition_c_mallocs)
  have "\<exists>s2 s3 sl sm.
      (if lf s1 then f s1 (length FL) (Some n) = Done (s2, sl) \<and>
                     f s2 (length FM) (Some (Suc n)) = Done (s3, sm)
       else f s1 (length FM) (Some (Suc n)) = Done (s2, sm) \<and>
            f s2 (length FL) (Some n) = Done (s3, sl)) \<and>
      contents s3 sl (length FL) = Some (sort FL) \<and>
      contents s3 sm (length FM) = Some (sort FM) \<and>
      (length FL = 0 \<longrightarrow> sl = None) \<and> (length FM = 0 \<longrightarrow> sm = None) \<and>
      (\<forall>b. sl = Some b \<or> sm = Some b \<longrightarrow> n + 3 \<le> b) \<and>
      (\<forall>b. sl = Some b \<longrightarrow> sm \<noteq> Some b) \<and>
      (\<forall>b < n + 3. blk s3 b = blk s1 b) \<and>
      mallocs s3 = mallocs s1 + (cl + cm)"
  proof (cases "lf s1")
    case True
    from rch m1 have "run_ok al (mallocs s1) (4 * card (set FL) + 4 * card (set FM))"
      by (simp add: cl_def cm_def)
    from two_children [OF ih gr c1(1) c1(3) sizes(2) sizes(3) this]
    obtain s2 sl s3 sm where
      q: "f s1 (length FL) (Some n) = Done (s2, sl)" "f s2 (length FM) (Some (Suc n)) = Done (s3, sm)"
      and cc: "contents s3 sl (length FL) = Some (sort FL)" "contents s3 sm (length FM) = Some (sort FM)"
      and z: "length FL = 0 \<longrightarrow> sl = None" "length FM = 0 \<longrightarrow> sm = None"
      and g: "grown s1 s2 sl" "grown s2 s3 sm"
      and m3: "mallocs s3 = mallocs s1 + 4 * card (set FL) + 4 * card (set FM)"
      by blast
    have e1: "\<forall>b. sl = Some b \<or> sm = Some b \<longrightarrow> n + 3 \<le> b"
      using grown_twice(3) [OF g] len1 by auto
    have e2: "\<forall>b. sl = Some b \<longrightarrow> sm \<noteq> Some b" using g by (auto simp: grown_def)
    have e3: "\<forall>b < n + 3. blk s3 b = blk s1 b" using grown_twice(2) [OF g] len1 by simp
    have e4: "mallocs s3 = mallocs s1 + (cl + cm)" using m3 by (simp add: cl_def cm_def)
    have e0: "if lf s1 then f s1 (length FL) (Some n) = Done (s2, sl) \<and>
                     f s2 (length FM) (Some (Suc n)) = Done (s3, sm)
       else f s1 (length FM) (Some (Suc n)) = Done (s2, sm) \<and>
            f s2 (length FL) (Some n) = Done (s3, sl)"
      using True q by simp
    show ?thesis
      by (intro exI conjI) (rule e0 cc z e1 e2 e3 e4)+
  next
    case False
    from rch m1 have "run_ok al (mallocs s1) (4 * card (set FM) + 4 * card (set FL))"
      by (simp add: cl_def cm_def add.commute)
    from two_children [OF ih gr c1(3) c1(1) sizes(3) sizes(2) this]
    obtain s2 sm s3 sl where
      q: "f s1 (length FM) (Some (Suc n)) = Done (s2, sm)" "f s2 (length FL) (Some n) = Done (s3, sl)"
      and cc: "contents s3 sl (length FL) = Some (sort FL)" "contents s3 sm (length FM) = Some (sort FM)"
      and z: "length FL = 0 \<longrightarrow> sl = None" "length FM = 0 \<longrightarrow> sm = None"
      and g: "grown s1 s2 sm" "grown s2 s3 sl"
      and m3: "mallocs s3 = mallocs s1 + 4 * card (set FM) + 4 * card (set FL)"
      by blast
    have e1: "\<forall>b. sl = Some b \<or> sm = Some b \<longrightarrow> n + 3 \<le> b"
      using grown_twice(3) [OF g] len1 by auto
    have e2: "\<forall>b. sl = Some b \<longrightarrow> sm \<noteq> Some b" using g by (auto simp: grown_def)
    have e3: "\<forall>b < n + 3. blk s3 b = blk s1 b" using grown_twice(2) [OF g] len1 by simp
    have e4: "mallocs s3 = mallocs s1 + (cl + cm)" using m3 by (simp add: cl_def cm_def)
    have e0: "if lf s1 then f s1 (length FL) (Some n) = Done (s2, sl) \<and>
                     f s2 (length FM) (Some (Suc n)) = Done (s3, sm)
       else f s1 (length FM) (Some (Suc n)) = Done (s2, sm) \<and>
            f s2 (length FL) (Some n) = Done (s3, sl)"
      using False q by simp
    show ?thesis
      by (intro exI conjI) (rule e0 cc z e1 e2 e3 e4)+
  qed
  then obtain s2 s3 sl sm where
    ch: "if lf s1 then f s1 (length FL) (Some n) = Done (s2, sl) \<and>
                     f s2 (length FM) (Some (Suc n)) = Done (s3, sm)
       else f s1 (length FM) (Some (Suc n)) = Done (s2, sm) \<and>
            f s2 (length FL) (Some n) = Done (s3, sl)"
    and x: "contents s3 sl (length FL) = Some (sort FL)"
    and z: "contents s3 sm (length FM) = Some (sort FM)"
    and nul: "length FL = 0 \<longrightarrow> sl = None" "length FM = 0 \<longrightarrow> sm = None"
    and fresh: "\<And>b. sl = Some b \<or> sm = Some b \<Longrightarrow> n + 3 \<le> b"
    and dlm: "\<And>b. sl = Some b \<Longrightarrow> sm \<noteq> Some b"
    and old: "\<And>b. b < n + 3 \<Longrightarrow> blk s3 b = blk s1 b"
    and m3: "mallocs s3 = mallocs s1 + (cl + cm)"
    by blast
  have y: "contents s3 (Some (Suc (Suc n))) (length FE) = Some FE"
    using c1(2) contents_cong [of "Some (Suc (Suc n))" s3 s1 "length FE"] old [of "Suc (Suc n)"]
    by simp
  have live3: "blk s3 n \<noteq> None" "blk s3 (Suc n) \<noteq> None" "blk s3 (Suc (Suc n)) \<noteq> None"
    using live1 old [of n] old [of "Suc n"] old [of "Suc (Suc n)"] by simp_all
  have dl: "b \<noteq> n \<and> b \<noteq> Suc n \<and> b \<noteq> Suc (Suc n)" if "sl = Some b" for b
    using fresh [of b] that by auto
  have dm: "b \<noteq> n \<and> b \<noteq> Suc n \<and> b \<noteq> Suc (Suc n)" if "sm = Some b" for b
    using fresh [of b] that by auto
  have ok3: "succeeds al (mallocs s3)" using r1 [unfolded run_ok_one] m1 m3 by (simp add: add.assoc)
  have szeq: "sz = length FL + length FE + length FM" using sizes(1) by simp
  from after_join_ok [OF ok3 x y z szeq live3(1,2,3) nul _ _ _ dl dm dlm]
  obtain s' where
    aj: "after_join al s3 sz (Some n) (length FL) (Some (Suc (Suc n))) (length FE)
          (Some (Suc n)) (length FM) sl sm = Done (s', Some (length (blocks s3)))"
    and r: "blk s' (length (blocks s3)) = Some (sort FL @ FE @ sort FM)"
    by auto
  have "sort FL @ FE @ sort FM = sort S"
    unfolding FL_def FE_def FM_def by (rule sort_three_way)
  with r have "blk s' (length (blocks s3)) = Some (sort S)" by simp
  moreover have "length (sort S) = sz" using contents_length [OF c] by simp
  ultimately have res: "contents s' (Some (length (blocks s3))) sz = Some (sort S)"
    using nz by (simp add: contents_def)
  have "mallocs s' = Suc (mallocs s3)" using aj by (rule after_join_mallocs(1))
  with m1 m3 card have cnt: "mallocs s' = mallocs s + 4 * card (set S)" by simp
  show ?thesis
    by (intro exI conjI) (rule ld pc ch aj res cnt)+
qed

lemma quicksort_run:
  "contents s d sz = Some S \<Longrightarrow> run_ok al (mallocs s) (4 * card (set S)) \<Longrightarrow>
     \<exists>s' r. quicksort al s sz d = Done (s', r) \<and> contents s' r sz = Some (sort S) \<and>
       (sz = 0 \<longrightarrow> r = None) \<and> mallocs s' = mallocs s + 4 * card (set S)"
proof (induction sz arbitrary: s d S rule: less_induct)
  case (less sz)
  show ?case
  proof (cases "sz = 0")
    case True
    with contents_length [OF less.prems(1)] have "S = []" by simp
    with True show ?thesis by (simp add: quicksort.simps contents_def)
  next
    case nz: False
    have ih: "\<forall>n s p F. n < sz \<longrightarrow> contents s p n = Some F \<longrightarrow>
        run_ok al (mallocs s) (4 * card (set F)) \<longrightarrow>
        (\<exists>s' r. quicksort al s n p = Done (s', r) \<and> contents s' r n = Some (sort F) \<and>
           (n = 0 \<longrightarrow> r = None) \<and> mallocs s' = mallocs s + 4 * card (set F))"
      using less.IH by blast
    have gr: "\<forall>s n p s' r. quicksort al s n p = Done (s', r) \<longrightarrow> grown s s' r"
      using quicksort_grown by blast
    from parent_run [where f = "quicksort al" and lf = "\<lambda>t. True",
        OF ih gr less.prems(1) nz less.prems(2)]
    obtain pivot n s1 ls es ms s2 s3 sl sm s' where
      ld: "load s d 0 = Some pivot"
      and pc: "partition_c al s d sz pivot =
        Done (s1, Some (Some n, ls, Some (Suc (Suc n)), es, Some (Suc n), ms))"
      and q: "quicksort al s1 ls (Some n) = Done (s2, sl)"
        "quicksort al s2 ms (Some (Suc n)) = Done (s3, sm)"
      and aj: "after_join al s3 sz (Some n) ls (Some (Suc (Suc n))) es (Some (Suc n)) ms sl sm =
        Done (s', Some (length (blocks s3)))"
      and res: "contents s' (Some (length (blocks s3))) sz = Some (sort S)"
      and cnt: "mallocs s' = mallocs s + 4 * card (set S)"
      by auto
    have "quicksort al s sz d =
        after_join al s3 sz (Some n) ls (Some (Suc (Suc n))) es (Some (Suc n)) ms sl sm"
      using nz ld pc q by (subst quicksort.simps) (simp add: after_join_def del: free_all.simps)
    with aj res cnt nz show ?thesis by simp
  qed
qed

lemma quicksort_threaded_run:
  assumes cl: "\<forall>t. creates_less sch t" and cm: "\<forall>t. creates_more sch t"
  shows "contents s d sz = Some S \<Longrightarrow> run_ok al (mallocs s) (4 * card (set S)) \<Longrightarrow>
     \<exists>s' r. quicksort_threaded al sch s \<lparr>args_data = d, args_size = sz\<rparr> = Done (s', r) \<and>
       contents s' r sz = Some (sort S) \<and>
       (sz = 0 \<longrightarrow> r = None) \<and> mallocs s' = mallocs s + 4 * card (set S)"
proof (induction sz arbitrary: s d S rule: less_induct)
  case (less sz)
  let ?s = "s\<lparr>thread_count := thread_count s + 1\<rparr>"
  let ?f = "\<lambda>t n p. quicksort_threaded al sch t \<lparr>args_data = p, args_size = n\<rparr>"
  show ?case
  proof (cases "sz = 0")
    case True
    with contents_length [OF less.prems(1)] have "S = []" by simp
    with True show ?thesis by (simp add: quicksort_threaded_empty contents_def)
  next
    case nz: False
    have c': "contents ?s d sz = Some S"
      using less.prems(1) contents_blocks [of ?s s d sz] by simp
    have run': "run_ok al (mallocs ?s) (4 * card (set S))" using less.prems(2) by simp
    have ih: "\<forall>n s p F. n < sz \<longrightarrow> contents s p n = Some F \<longrightarrow>
        run_ok al (mallocs s) (4 * card (set F)) \<longrightarrow>
        (\<exists>s' r. ?f s n p = Done (s', r) \<and> contents s' r n = Some (sort F) \<and>
           (n = 0 \<longrightarrow> r = None) \<and> mallocs s' = mallocs s + 4 * card (set F))"
      using less.IH by blast
    have gr: "\<forall>s n p s' r. ?f s n p = Done (s', r) \<longrightarrow> grown s s' r"
      using quicksort_threaded_grown by blast
    from parent_run [where f = ?f and lf = "\<lambda>t. less_first sch (thread_count t)",
        OF ih gr c' nz run']
    obtain pivot n s1 ls es ms s2 s3 sl sm s' where
      ld: "load ?s d 0 = Some pivot"
      and pc: "partition_c al ?s d sz pivot =
        Done (s1, Some (Some n, ls, Some (Suc (Suc n)), es, Some (Suc n), ms))"
      and q: "if less_first sch (thread_count s1)
          then quicksort_threaded al sch s1 \<lparr>args_data = Some n, args_size = ls\<rparr> = Done (s2, sl) \<and>
               quicksort_threaded al sch s2 \<lparr>args_data = Some (Suc n), args_size = ms\<rparr> = Done (s3, sm)
          else quicksort_threaded al sch s1 \<lparr>args_data = Some (Suc n), args_size = ms\<rparr> = Done (s2, sm) \<and>
               quicksort_threaded al sch s2 \<lparr>args_data = Some n, args_size = ls\<rparr> = Done (s3, sl)"
      and aj: "after_join al s3 sz (Some n) ls (Some (Suc (Suc n))) es (Some (Suc n)) ms sl sm =
        Done (s', Some (length (blocks s3)))"
      and res: "contents s' (Some (length (blocks s3))) sz = Some (sort S)"
      and cnt: "mallocs s' = mallocs ?s + 4 * card (set S)"
      by blast
    have "quicksort_threaded al sch s \<lparr>args_data = d, args_size = sz\<rparr> =
        after_join al s3 sz (Some n) ls (Some (Suc (Suc n))) es (Some (Suc n)) ms sl sm"
    proof (cases "less_first sch (thread_count s1)")
      case True
      with nz ld pc q cl cm show ?thesis by (subst quicksort_threaded.simps) simp
    next
      case False
      with nz ld pc q cl cm show ?thesis by (subst quicksort_threaded.simps) simp
    qed
    with aj res cnt nz show ?thesis by simp
  qed
qed

text \<open>The same when no call of \<^verbatim>\<open>malloc\<close> fails at all.\<close>

lemma quicksort_ok:
  assumes ok: "\<forall>k. succeeds al k"
  shows "contents s d sz = Some S \<Longrightarrow>
    \<exists>s' r. quicksort al s sz d = Done (s', r) \<and> contents s' r sz = Some (sort S) \<and>
      (sz = 0 \<longrightarrow> r = None)"
  using quicksort_run [OF _ run_ok_all [OF ok]] by blast

lemma quicksort_threaded_ok:
  assumes ok: "\<forall>k. succeeds al k"
    and cl: "\<forall>t. creates_less sch t" and cm: "\<forall>t. creates_more sch t"
  shows "contents s d sz = Some S \<Longrightarrow>
    \<exists>s' r. quicksort_threaded al sch s \<lparr>args_data = d, args_size = sz\<rparr> = Done (s', r) \<and>
      contents s' r sz = Some (sort S) \<and> (sz = 0 \<longrightarrow> r = None)"
  using quicksort_threaded_run [OF cl cm _ run_ok_all [OF ok]] by blast

section \<open>What a returned pointer tells about the call\<close>










section \<open>The claims\<close>

subsection \<open>C1: the sequential sorter sorts\<close>

text \<open>
  C1. When no allocation fails and the input pointer \<open>d\<close> gives a readable sequence \<open>S\<close> of
  \<open>sz\<close> elements, \<^verbatim>\<open>quicksort\<close> returns (it does not fault), and what the caller reads
  through the returned pointer is a permutation of \<open>S\<close> (same multiset, same length) in
  non-descending order: \<open>out ! i \<le> out ! j\<close> for all positions \<open>i < j\<close>. For the empty
  input the pointer is \<^verbatim>\<open>NULL\<close> and the sequence read is empty.
\<close>

theorem quicksort_sorts:
  assumes "\<forall>k. succeeds al k" and "contents s d sz = Some S"
  shows "\<exists>s' r out. quicksort al s sz d = Done (s', r) \<and> contents s' r sz = Some out \<and>
           mset out = mset S \<and> length out = length S \<and>
           (\<forall>i j. i < j \<longrightarrow> j < length out \<longrightarrow> out ! i \<le> out ! j)"
proof -
  from quicksort_ok [OF assms] obtain s' r where
    q: "quicksort al s sz d = Done (s', r)" and c: "contents s' r sz = Some (sort S)"
    by blast
  have "sorted (sort S)" by simp
  then have "\<forall>i j. i < j \<longrightarrow> j < length (sort S) \<longrightarrow> sort S ! i \<le> sort S ! j"
    unfolding sorted_iff_nth_mono_less .
  moreover have "mset (sort S) = mset S" and "length (sort S) = length S" by simp_all
  ultimately show ?thesis using q c by blast
qed

theorem quicksort_sorts_witness:
  "(\<forall>k. succeeds always k) \<and>
   contents (start [5, 3, 8, 3, 1]) (Some 0) 5 = Some [5, 3, 8, 3, 1] \<and>
   (\<exists>s' r out. quicksort always (start [5, 3, 8, 3, 1]) 5 (Some 0) = Done (s', r) \<and>
      contents s' r 5 = Some out \<and> mset out = mset [5, 3, 8, 3, 1] \<and>
      length out = length [5, 3, 8, 3, 1 :: int] \<and>
      (\<forall>i j. i < j \<longrightarrow> j < length out \<longrightarrow> out ! i \<le> out ! j))"
proof -
  have a: "\<forall>k. succeeds always k" by (simp add: always_def)
  have c: "contents (start [5, 3, 8, 3, 1]) (Some 0) 5 = Some [5, 3, 8, 3, 1]"
    by (simp add: contents_def start_def blk_def)
  from quicksort_sorts [OF a c] a c show ?thesis by blast
qed

subsection \<open>C2: the threaded sorter against the sequential sorter\<close>




subsection \<open>C3: partition\<close>

text \<open>
  C3. When \<^verbatim>\<open>partition\<close> succeeds (returns 0) on a readable sequence \<open>S\<close> and a pivot \<open>p\<close>,
  the three output sequences \<open>L\<close>, \<open>E\<close>, \<open>M\<close> (the first \<open>ls\<close>, \<open>es\<close>, \<open>ms\<close> elements of
  the three new buffers) satisfy: every element of \<open>L\<close> is below \<open>p\<close>, every element of
  \<open>E\<close> equals \<open>p\<close>, every element of \<open>M\<close> is above \<open>p\<close>; together they hold exactly the
  elements of \<open>S\<close>, each occurrence once; and the three sizes add up to the size of \<open>S\<close>.
\<close>

theorem partition_three_way:
  assumes "partition_c al s arr sz p = Done (s', Some (la, ls, ea, es, ma, ms))"
    and "contents s arr sz = Some S"
  shows "\<exists>L E M. contents s' la ls = Some L \<and> contents s' ea es = Some E \<and>
           contents s' ma ms = Some M \<and>
           (\<forall>x \<in> set L. x < p) \<and> (\<forall>x \<in> set E. x = p) \<and> (\<forall>x \<in> set M. p < x) \<and>
           mset L + mset E + mset M = mset S \<and> ls + es + ms = sz"
proof -
  define FL where "FL = filter (\<lambda>x. x < p) S"
  define FM where "FM = filter (\<lambda>x. p < x) S"
  define FE where "FE = filter (\<lambda>x. x = p) S"
  note a = partition_c_Some_succeeds [OF assms(1)]
  from partition_c_ok [OF a assms(2) refl FL_def FM_def FE_def] assms(1)
  have c: "contents s' la ls = Some FL" "contents s' ea es = Some FE" "contents s' ma ms = Some FM"
    and l: "ls = length FL" "es = length FE" "ms = length FM"
    by auto
  have m: "mset FL + mset FE + mset FM = mset S"
    unfolding FL_def FE_def FM_def by (rule mset_three_way)
  then have "size (mset FL + mset FE + mset FM) = size (mset S)" by simp
  then have "ls + es + ms = sz" using l contents_length [OF assms(2)] by simp
  moreover have "\<forall>x \<in> set FL. x < p" "\<forall>x \<in> set FE. x = p" "\<forall>x \<in> set FM. p < x"
    by (simp_all add: FL_def FE_def FM_def)
  ultimately show ?thesis using c m by blast
qed

theorem partition_three_way_witness:
  "partition_c always (start [5, 3, 8, 3, 1]) (Some 0) 5 5 =
     Done (\<lparr>blocks = [Some [5, 3, 8, 3, 1], Some [3, 3, 1, 0, 0], Some [8, 0, 0, 0, 0],
                       Some [5, 0, 0, 0, 0]],
             mallocs = 3, thread_count = 0\<rparr>,
           Some (Some 1, 3, Some 3, 1, Some 2, 1)) \<and>
   contents (start [5, 3, 8, 3, 1]) (Some 0) 5 = Some [5, 3, 8, 3, 1] \<and>
   (\<exists>L E M.
      contents \<lparr>blocks = [Some [5, 3, 8, 3, 1], Some [3, 3, 1, 0, 0], Some [8, 0, 0, 0, 0],
                          Some [5, 0, 0, 0, 0]],
                mallocs = 3, thread_count = 0\<rparr> (Some 1) 3 = Some L \<and>
      contents \<lparr>blocks = [Some [5, 3, 8, 3, 1], Some [3, 3, 1, 0, 0], Some [8, 0, 0, 0, 0],
                          Some [5, 0, 0, 0, 0]],
                mallocs = 3, thread_count = 0\<rparr> (Some 3) 1 = Some E \<and>
      contents \<lparr>blocks = [Some [5, 3, 8, 3, 1], Some [3, 3, 1, 0, 0], Some [8, 0, 0, 0, 0],
                          Some [5, 0, 0, 0, 0]],
                mallocs = 3, thread_count = 0\<rparr> (Some 2) 1 = Some M \<and>
      (\<forall>x \<in> set L. x < 5) \<and> (\<forall>x \<in> set E. x = 5) \<and> (\<forall>x \<in> set M. 5 < x) \<and>
      mset L + mset E + mset M = mset [5, 3, 8, 3, 1] \<and> 3 + 1 + 1 = (5 :: nat))"
proof -
  have p: "partition_c always (start [5, 3, 8, 3, 1]) (Some 0) 5 5 =
     Done (\<lparr>blocks = [Some [5, 3, 8, 3, 1], Some [3, 3, 1, 0, 0], Some [8, 0, 0, 0, 0],
                       Some [5, 0, 0, 0, 0]],
             mallocs = 3, thread_count = 0\<rparr>,
           Some (Some 1, 3, Some 3, 1, Some 2, 1))"
    by code_simp
  have c: "contents (start [5, 3, 8, 3, 1]) (Some 0) 5 = Some [5, 3, 8, 3, 1]"
    by (simp add: contents_def start_def blk_def)
  from partition_three_way [OF p c] p c show ?thesis by blast
qed

subsection \<open>C4: the threaded sorter on one element\<close>

text \<open>
  C4, as amended. On a sequence of one element \<open>x\<close>, with no allocation failing and both
  threads created, \<^verbatim>\<open>quicksort_threaded\<close> returns a pointer to the sequence \<open>[x]\<close>, and
  \<^verbatim>\<open>thread_count\<close> has grown by exactly 3, whichever child runs first: one increment by
  the top-level call, and one by each of the two threads that are created for the empty
  partitions \<^verbatim>\<open>less\<close> and \<^verbatim>\<open>more\<close> (lines 189 and 190 create both threads whatever the
  sizes are). Each call increments the counter once, before it partitions.
\<close>

theorem quicksort_threaded_singleton:
  assumes ok: "\<forall>k. succeeds al k"
    and cl: "\<forall>t. creates_less sch t" and cm: "\<forall>t. creates_more sch t"
    and c: "contents s d 1 = Some [x]"
  shows "\<exists>s' r. quicksort_threaded al sch s \<lparr>args_data = d, args_size = 1\<rparr> = Done (s', r) \<and>
           contents s' r 1 = Some [x] \<and> thread_count s' = thread_count s + 3"
proof -
  let ?s = "s\<lparr>thread_count := thread_count s + 1\<rparr>"
  from quicksort_threaded_ok [OF ok cl cm c] obtain s' r where
    q: "quicksort_threaded al sch s \<lparr>args_data = d, args_size = 1\<rparr> = Done (s', r)"
    and cr: "contents s' r 1 = Some (sort [x])"
    by blast
  define n where "n = length (blocks ?s)"
  have c': "contents ?s d 1 = Some [x]" using c contents_blocks [of ?s s d 1] by simp
  have a3: "succeeds al (mallocs ?s)" "succeeds al (Suc (mallocs ?s))"
    "succeeds al (Suc (Suc (mallocs ?s)))" using ok by simp_all
  from partition_c_ok [OF a3 c' n_def refl refl refl] have
    pc: "\<exists>s1. partition_c al ?s d 1 p =
      Done (s1, Some (Some n, length (filter (\<lambda>y. y < p) [x]), Some (Suc (Suc n)),
        length (filter (\<lambda>y. y = p) [x]), Some (Suc n), length (filter (\<lambda>y. p < y) [x])))" for p
    by blast
  from quicksort_threaded_Done [OF q] obtain pivot s1 parts where
    ld: "load s d 0 = Some pivot"
    and p: "partition_c al ?s d 1 pivot = Done (s1, parts)"
    and rest: "\<forall>la ls ea es ma ms. parts = Some (la, ls, ea, es, ma, ms) \<longrightarrow>
        (\<exists>s2 s3 sl sm.
           (if less_first sch (thread_count s1)
            then quicksort_threaded al sch s1 \<lparr>args_data = la, args_size = ls\<rparr> = Done (s2, sl) \<and>
                 quicksort_threaded al sch s2 \<lparr>args_data = ma, args_size = ms\<rparr> = Done (s3, sm)
            else quicksort_threaded al sch s1 \<lparr>args_data = ma, args_size = ms\<rparr> = Done (s2, sm) \<and>
                 quicksort_threaded al sch s2 \<lparr>args_data = la, args_size = ls\<rparr> = Done (s3, sl)) \<and>
           after_join al s3 1 la ls ea es ma ms sl sm = Done (s', r))"
    by auto
  from contents_Some [OF c] ld have "pivot = x"
    by (auto simp: load_def take_Suc_conv_app_nth split: if_splits)
  with pc [of pivot] p have
    parts: "parts = Some (Some n, 0, Some (Suc (Suc n)), 1, Some (Suc n), 0)"
    by auto
  from rest parts obtain s2 s3 sl sm where
    ch: "if less_first sch (thread_count s1)
         then quicksort_threaded al sch s1 \<lparr>args_data = Some n, args_size = 0\<rparr> = Done (s2, sl) \<and>
              quicksort_threaded al sch s2 \<lparr>args_data = Some (Suc n), args_size = 0\<rparr> = Done (s3, sm)
         else quicksort_threaded al sch s1 \<lparr>args_data = Some (Suc n), args_size = 0\<rparr> = Done (s2, sm) \<and>
              quicksort_threaded al sch s2 \<lparr>args_data = Some n, args_size = 0\<rparr> = Done (s3, sl)"
    and aj: "after_join al s3 1 (Some n) 0 (Some (Suc (Suc n))) 1 (Some (Suc n)) 0 sl sm = Done (s', r)"
    by blast
  have "thread_count s3 = thread_count s1 + 2"
    using ch by (auto simp: quicksort_threaded_empty split: if_splits)
  moreover have "thread_count s1 = thread_count s + 1"
    using partition_c_frame(3) [OF p] by simp
  moreover note after_join_frame(4) [OF aj]
  ultimately have "thread_count s' = thread_count s + 3" by simp
  with q cr show ?thesis by simp
qed

theorem quicksort_threaded_singleton_witness:
  "(\<forall>k. succeeds always k) \<and> (\<forall>t. creates_less in_order t) \<and> (\<forall>t. creates_more in_order t) \<and>
   contents (start [7]) (Some 0) 1 = Some [7] \<and>
   (\<exists>s' r. quicksort_threaded always in_order (start [7]) \<lparr>args_data = Some 0, args_size = 1\<rparr> =
             Done (s', r) \<and>
      contents s' r 1 = Some [7] \<and> thread_count s' = thread_count (start [7]) + 3)"
proof -
  have a: "\<forall>k. succeeds always k" by (simp add: always_def)
  have l: "\<forall>t. creates_less in_order t" by (simp add: in_order_def)
  have m: "\<forall>t. creates_more in_order t" by (simp add: in_order_def)
  have c: "contents (start [7]) (Some 0) 1 = Some [7]"
    by (simp add: contents_def start_def blk_def)
  from quicksort_threaded_singleton [OF a l m c] a l m c show ?thesis by blast
qed

text \<open>
  C4 as stated says that the counter is 1 afterwards. Starting from 0, as \<^verbatim>\<open>main\<close> does,
  sorting the one-element input \<^verbatim>\<open>[7]\<close> ends with \<^verbatim>\<open>thread_count = 3\<close>.
\<close>

theorem singleton_thread_count_is_three:
  "quicksort_threaded always in_order (start [7]) \<lparr>args_data = Some 0, args_size = 1\<rparr> =
     Done (\<lparr>blocks = [Some [7], None, None, None, Some [7]], mallocs = 4, thread_count = 3\<rparr>,
           Some 4) \<and>
   thread_count \<lparr>blocks = [Some [7], None, None, None, Some [7]], mallocs = 4,
                  thread_count = 3\<rparr> \<noteq> 1"
proof -
  have "quicksort_threaded always in_order (start [7]) \<lparr>args_data = Some 0, args_size = 1\<rparr> =
     Done (\<lparr>blocks = [Some [7], None, None, None, Some [7]], mallocs = 4, thread_count = 3\<rparr>,
           Some 4)"
    by code_simp
  then show ?thesis by simp
qed

subsection \<open>C5: the empty input\<close>

text \<open>
  C5, as amended. Called with size 0, \<^verbatim>\<open>quicksort\<close> returns \<^verbatim>\<open>NULL\<close> at once: it allocates
  nothing and leaves the memory as it was, whatever the allocator would have done.
  \<^verbatim>\<open>NULL\<close> is what a caller reads as the sequence of length 0.
\<close>

theorem quicksort_empty_returns_null:
  "quicksort al s 0 d = Done (s, None) \<and> contents s None 0 = Some []"
  by (simp add: quicksort.simps contents_def)

theorem quicksort_empty_returns_null_witness:
  "quicksort always (start []) 0 (Some 0) = Done (start [], None) \<and>
   contents (start []) None 0 = Some []"
  using quicksort_empty_returns_null [of always "start []" "Some 0"] by simp

text \<open>
  C5 as stated asks for a value that differs from the error value. The code returns
  \<^verbatim>\<open>NULL\<close> in both cases (as its comment says: \<^verbatim>\<open>NULL if the input size is zero or
  memory allocation fails\<close>): with an allocator whose first call fails, the empty input
  and the input \<^verbatim>\<open>[4, 2]\<close> both yield \<^verbatim>\<open>NULL\<close>.
\<close>

theorem quicksort_null_is_also_the_error_value:
  "quicksort (failing_at 0) (start [4, 2]) 0 (Some 0) = Done (start [4, 2], None) \<and>
   quicksort (failing_at 0) (start [4, 2]) 2 (Some 0) =
     Done (\<lparr>blocks = [Some [4, 2], Some [0, 0], Some [0, 0]], mallocs = 3, thread_count = 0\<rparr>,
           None) \<and>
   map_outcome snd (quicksort (failing_at 0) (start [4, 2]) 0 (Some 0)) =
   map_outcome snd (quicksort (failing_at 0) (start [4, 2]) 2 (Some 0))"
  by code_simp

subsection \<open>C6: allocation failure in partition\<close>

text \<open>
  C6. When the second of the three calls of \<^verbatim>\<open>malloc\<close> in \<^verbatim>\<open>partition\<close> fails, the
  function returns \<^verbatim>\<open>-1\<close> (the result \<open>None\<close>), as the claim says, but the two buffers
  that were obtained (addresses 1 and 2 below) are still allocated afterwards, and no
  pointer to them is handed to the caller: line 58 returns without a call of \<^verbatim>\<open>free\<close>.
\<close>

theorem partition_failure_keeps_buffers:
  "partition_c (failing_at 1) (start [5, 3, 8]) (Some 0) 3 5 =
     Done (\<lparr>blocks = [Some [5, 3, 8], Some [0, 0, 0], Some [0, 0, 0]],
             mallocs = 3, thread_count = 0\<rparr>,
           None)"
  by code_simp

subsection \<open>C7: merge\<close>

text \<open>
  C7. Given a destination buffer \<open>r\<close> of length \<open>ls + es + ms\<close> and three source sequences
  \<open>X\<close>, \<open>Y\<close>, \<open>Z\<close> of these lengths that do not lie in the destination buffer, \<^verbatim>\<open>merge\<close>
  returns with the destination holding \<open>X\<close>, then \<open>Y\<close>, then \<open>Z\<close>, with no gaps:
  \<open>D ! i = X ! i\<close> for \<open>i < ls\<close>, \<open>D ! (ls + i) = Y ! i\<close> for \<open>i < es\<close>, and
  \<open>D ! (ls + es + i) = Z ! i\<close> for \<open>i < ms\<close>. No other buffer changes. The function
  consists of three calls of \<^verbatim>\<open>memcpy\<close> and compares nothing: the result is the same
  concatenation whatever the values are.
\<close>

theorem merge_concatenates:
  assumes "blk s r = Some R" and "length R = ls + es + ms"
    and "contents s la ls = Some X" and "contents s ea es = Some Y"
    and "contents s ma ms = Some Z"
    and "la \<noteq> Some r" and "ea \<noteq> Some r" and "ma \<noteq> Some r"
  shows "\<exists>s' D. merge s (Some r) la ls ea es ma ms = Done s' \<and> blk s' r = Some D \<and>
           D = X @ Y @ Z \<and> length D = ls + es + ms \<and>
           (\<forall>i. i < ls \<longrightarrow> D ! i = X ! i) \<and>
           (\<forall>i. i < es \<longrightarrow> D ! (ls + i) = Y ! i) \<and>
           (\<forall>i. i < ms \<longrightarrow> D ! (ls + es + i) = Z ! i) \<and>
           (\<forall>b. b \<noteq> r \<longrightarrow> blk s' b = blk s b)"
proof -
  from merge_ok [OF assms] obtain s' where
    m: "merge s (Some r) la ls ea es ma ms = Done s'" and b: "blk s' r = Some (X @ Y @ Z)"
    by blast
  have l: "length X = ls" "length Y = es" "length Z = ms"
    using assms(3,4,5) by (simp_all add: contents_length)
  have "\<forall>i. i < ls \<longrightarrow> (X @ Y @ Z) ! i = X ! i" using l by (simp add: nth_append)
  moreover have "\<forall>i. i < es \<longrightarrow> (X @ Y @ Z) ! (ls + i) = Y ! i" using l by (simp add: nth_append)
  moreover have "\<forall>i. i < ms \<longrightarrow> (X @ Y @ Z) ! (ls + es + i) = Z ! i"
    using l by (auto simp: nth_append)
  moreover have "\<forall>b. b \<noteq> r \<longrightarrow> blk s' b = blk s b" using merge_facts(1) [OF m] by simp
  moreover have "length (X @ Y @ Z) = ls + es + ms" using l by simp
  ultimately show ?thesis using m b by blast
qed

theorem merge_concatenates_witness:
  "\<exists>s' D. merge merge_example (Some 3) (Some 0) 3 (Some 1) 1 (Some 2) 1 = Done s' \<and>
      blk s' 3 = Some D \<and> D = [1, 3, 3] @ [5] @ [8] \<and> length D = 3 + 1 + 1 \<and>
      (\<forall>i. i < 3 \<longrightarrow> D ! i = [1, 3, 3] ! i) \<and>
      (\<forall>i. i < 1 \<longrightarrow> D ! (3 + i) = [5] ! i) \<and>
      (\<forall>i. i < 1 \<longrightarrow> D ! (3 + 1 + i) = [8] ! i) \<and>
      (\<forall>b. b \<noteq> 3 \<longrightarrow> blk s' b = blk merge_example b)"
proof -
  have r: "blk merge_example 3 = Some [0, 0, 0, 0, 0]" by (simp add: merge_example_def blk_def)
  have n: "length [0, 0, 0, 0, 0 :: int] = 3 + 1 + 1" by simp
  have x: "contents merge_example (Some 0) 3 = Some [1, 3, 3]"
    by (simp add: merge_example_def contents_def blk_def)
  have y: "contents merge_example (Some 1) 1 = Some [5]"
    by (simp add: merge_example_def contents_def blk_def)
  have z: "contents merge_example (Some 2) 1 = Some [8]"
    by (simp add: merge_example_def contents_def blk_def)
  have ne: "Some (0 :: nat) \<noteq> Some 3" "Some (1 :: nat) \<noteq> Some 3" "Some (2 :: nat) \<noteq> Some 3"
    by simp_all
  from merge_concatenates [OF r n x y z ne] show ?thesis .
qed

subsection \<open>C8: the input is not modified\<close>

text \<open>
  C8. Whenever \<^verbatim>\<open>quicksort\<close> or \<^verbatim>\<open>quicksort_threaded\<close> returns, for any allocator and any
  scheduler, the input sequence \<open>S\<close> is still read through the input pointer, and every
  buffer that existed before the call is allocated or freed as before and holds what it
  held: the sorters write into buffers that they allocate themselves.
\<close>

theorem sorters_leave_input_unchanged:
  assumes "contents s d sz = Some S"
  shows "(\<forall>s' r. quicksort al s sz d = Done (s', r) \<longrightarrow>
            contents s' d sz = Some S \<and> (\<forall>b < length (blocks s). blk s' b = blk s b)) \<and>
         (\<forall>s' r. quicksort_threaded al sch s \<lparr>args_data = d, args_size = sz\<rparr> = Done (s', r) \<longrightarrow>
            contents s' d sz = Some S \<and> (\<forall>b < length (blocks s). blk s' b = blk s b))"
proof (intro conjI allI impI)
  fix s' r assume q: "quicksort al s sz d = Done (s', r)"
  from quicksort_frame [OF q] have f: "\<And>b. b < length (blocks s) \<Longrightarrow> blk s' b = blk s b" by simp
  from contents_frame [OF assms f] show "contents s' d sz = Some S" .
  fix b assume "b < length (blocks s)"
  then show "blk s' b = blk s b" by (rule f)
next
  fix s' r assume q: "quicksort_threaded al sch s \<lparr>args_data = d, args_size = sz\<rparr> = Done (s', r)"
  note f = quicksort_threaded_frame(2) [OF q]
  from contents_frame [OF assms f] show "contents s' d sz = Some S" .
  fix b assume "b < length (blocks s)"
  then show "blk s' b = blk s b" by (rule f)
qed

theorem sorters_leave_input_unchanged_witness:
  "contents (start [5, 3, 8, 3, 1]) (Some 0) 5 = Some [5, 3, 8, 3, 1] \<and>
   quicksort always (start [5, 3, 8, 3, 1]) 5 (Some 0) =
     Done (\<lparr>blocks = [Some [5, 3, 8, 3, 1], None, None, None, None, None, None, None, None,
                       None, None, None, None, None, None, None, Some [1, 3, 3, 5, 8]],
             mallocs = 16, thread_count = 0\<rparr>, Some 16) \<and>
   contents \<lparr>blocks = [Some [5, 3, 8, 3, 1], None, None, None, None, None, None, None, None,
                       None, None, None, None, None, None, None, Some [1, 3, 3, 5, 8]],
             mallocs = 16, thread_count = 0\<rparr> (Some 0) 5 = Some [5, 3, 8, 3, 1] \<and>
   quicksort_threaded always more_before_less (start [5, 3, 8, 3, 1]) \<lparr>args_data = Some 0, args_size = 5\<rparr> =
     Done (\<lparr>blocks = [Some [5, 3, 8, 3, 1], None, None, None, None, None, None, None, None,
                       None, None, None, None, None, None, None, Some [1, 3, 3, 5, 8]],
             mallocs = 16, thread_count = 9\<rparr>, Some 16) \<and>
   contents \<lparr>blocks = [Some [5, 3, 8, 3, 1], None, None, None, None, None, None, None, None,
                       None, None, None, None, None, None, None, Some [1, 3, 3, 5, 8]],
             mallocs = 16, thread_count = 9\<rparr> (Some 0) 5 = Some [5, 3, 8, 3, 1]"
proof -
  have c: "contents (start [5, 3, 8, 3, 1]) (Some 0) 5 = Some [5, 3, 8, 3, 1]"
    by (simp add: contents_def start_def blk_def)
  have q: "quicksort always (start [5, 3, 8, 3, 1]) 5 (Some 0) =
     Done (\<lparr>blocks = [Some [5, 3, 8, 3, 1], None, None, None, None, None, None, None, None,
                       None, None, None, None, None, None, None, Some [1, 3, 3, 5, 8]],
             mallocs = 16, thread_count = 0\<rparr>, Some 16)"
    by code_simp
  have t: "quicksort_threaded always more_before_less (start [5, 3, 8, 3, 1]) \<lparr>args_data = Some 0, args_size = 5\<rparr> =
     Done (\<lparr>blocks = [Some [5, 3, 8, 3, 1], None, None, None, None, None, None, None, None,
                       None, None, None, None, None, None, None, Some [1, 3, 3, 5, 8]],
             mallocs = 16, thread_count = 9\<rparr>, Some 16)"
    by code_simp
  from sorters_leave_input_unchanged [OF c, of always more_before_less] q t c show ?thesis by blast
qed

subsection \<open>C9: sorting a sorted sequence\<close>

text \<open>
  C9. When no allocation fails and the input sequence \<open>S\<close> is already in non-descending
  order, \<^verbatim>\<open>quicksort\<close> returns a pointer through which the caller reads \<open>S\<close> itself,
  element for element.
\<close>

theorem quicksort_idempotent:
  assumes "\<forall>k. succeeds al k" and "contents s d sz = Some S" and "sorted S"
  shows "\<exists>s' r. quicksort al s sz d = Done (s', r) \<and> contents s' r sz = Some S"
proof -
  from assms(3) have "sort S = S" by (rule sorted_sort_id)
  with quicksort_ok [OF assms(1,2)] show ?thesis by auto
qed

theorem quicksort_idempotent_witness:
  "(\<forall>k. succeeds always k) \<and>
   contents (start [1, 3, 3, 5, 8]) (Some 0) 5 = Some [1, 3, 3, 5, 8] \<and>
   sorted [1, 3, 3, 5, 8 :: int] \<and>
   (\<exists>s' r. quicksort always (start [1, 3, 3, 5, 8]) 5 (Some 0) = Done (s', r) \<and>
      contents s' r 5 = Some [1, 3, 3, 5, 8])"
proof -
  have a: "\<forall>k. succeeds always k" by (simp add: always_def)
  have c: "contents (start [1, 3, 3, 5, 8]) (Some 0) 5 = Some [1, 3, 3, 5, 8]"
    by (simp add: contents_def start_def blk_def)
  have s: "sorted [1, 3, 3, 5, 8 :: int]" by simp
  from quicksort_idempotent [OF a c s] a c s show ?thesis by blast
qed

subsection \<open>C10: termination of the sequential sorter\<close>

text \<open>
  C10. \<^verbatim>\<open>quicksort\<close> calls \<^verbatim>\<open>partition\<close> on a non-empty input with the first element as
  pivot. Whenever that call succeeds, the pivot has been put into the equal partition
  (\<open>0 < es\<close>), so the partitions \<^verbatim>\<open>less\<close> and \<^verbatim>\<open>more\<close> are strictly smaller than the input
  (\<open>ls < sz\<close> and \<open>ms < sz\<close>), and these are the sizes of the two recursive calls. The
  definition of \<open>quicksort\<close> above is accepted with the measure \<open>sz\<close> on the strength of
  the same fact (\<open>partition_c_sizes\<close>): the function is total, so every call returns a
  pointer or faults, for every state, allocator and input.
\<close>

theorem partitions_strictly_smaller:
  assumes "0 < sz" and "load s d 0 = Some pivot"
    and "partition_c al s d sz pivot = Done (s', Some (la, ls, ea, es, ma, ms))"
  shows "0 < es \<and> ls < sz \<and> ms < sz"
  using partition_c_sizes [OF assms(3,1,2)] by linarith

theorem partitions_strictly_smaller_witness:
  "(0 :: nat) < 5 \<and> load (start [5, 3, 8, 3, 1]) (Some 0) 0 = Some 5 \<and>
   partition_c always (start [5, 3, 8, 3, 1]) (Some 0) 5 5 =
     Done (\<lparr>blocks = [Some [5, 3, 8, 3, 1], Some [3, 3, 1, 0, 0], Some [8, 0, 0, 0, 0],
                       Some [5, 0, 0, 0, 0]],
             mallocs = 3, thread_count = 0\<rparr>,
           Some (Some 1, 3, Some 3, 1, Some 2, 1)) \<and>
   (0 :: nat) < 1 \<and> (3 :: nat) < 5 \<and> (1 :: nat) < 5"
proof -
  have z: "(0 :: nat) < 5" by simp
  have l: "load (start [5, 3, 8, 3, 1]) (Some 0) 0 = Some 5"
    by (simp add: load_def start_def blk_def)
  have p: "partition_c always (start [5, 3, 8, 3, 1]) (Some 0) 5 5 =
     Done (\<lparr>blocks = [Some [5, 3, 8, 3, 1], Some [3, 3, 1, 0, 0], Some [8, 0, 0, 0, 0],
                       Some [5, 0, 0, 0, 0]],
             mallocs = 3, thread_count = 0\<rparr>,
           Some (Some 1, 3, Some 3, 1, Some 2, 1))"
    by code_simp
  from partitions_strictly_smaller [OF z l p] z l p show ?thesis by blast
qed

end
